theory Spec2Isabelle
  imports Main "HOL-Library.Multiset" "HOL-Library.Word"
begin

section \<open>Address validation and normalisation (package validator)\<close>

text \<open>
  Go strings are byte sequences and \<open>len\<close> counts bytes, so an address is a
  \<^typ>\<open>string\<close> (a list of 8-bit characters). Bytes are compared through their codes.
\<close>

definition byte :: "char \<Rightarrow> nat" where
  "byte c = of_char c"

definition in_range :: "char \<Rightarrow> char \<times> char \<Rightarrow> bool" where
  "in_range c r = (byte (fst r) \<le> byte c \<and> byte c \<le> byte (snd r))"

subsection \<open>The fragment of Go regular expressions the validator uses\<close>

text \<open>
  The pattern \<^verbatim>\<open>^0x[0-9a-fA-F]{40}$\<close> is built from the operators begin-of-text,
  end-of-text, literal, character class, concatenation and counted repetition.
  \<open>match_re r s i\<close> lists the positions at which a match of \<open>r\<close> that starts at
  position \<open>i\<close> of the text \<open>s\<close> can end. Without the multi-line flag \<^verbatim>\<open>^\<close> and
  \<^verbatim>\<open>$\<close> hold at the two ends of the text only. The matcher works on bytes; every
  element of the pattern asks for an ASCII byte, and an ASCII byte is one code point
  in UTF-8.
\<close>

datatype regexp =
    EmptyMatch
  | BeginText
  | EndText
  | Literal char
  | CharClass "(char \<times> char) list"
  | Concat regexp regexp

fun match_re :: "regexp \<Rightarrow> string \<Rightarrow> nat \<Rightarrow> nat list" where
  "match_re EmptyMatch s i = [i]"
| "match_re BeginText s i = (if i = 0 then [i] else [])"
| "match_re EndText s i = (if i = length s then [i] else [])"
| "match_re (Literal c) s i = (if i < length s \<and> s ! i = c then [Suc i] else [])"
| "match_re (CharClass rs) s i =
     (if i < length s \<and> list_ex (in_range (s ! i)) rs then [Suc i] else [])"
| "match_re (Concat r1 r2) s i = concat (map (match_re r2 s) (match_re r1 s i))"

text \<open>
  A counted repetition \<^verbatim>\<open>r{n}\<close> is compiled to \<open>n\<close> copies of \<open>r\<close> in a row.
\<close>

primrec Repeat :: "nat \<Rightarrow> regexp \<Rightarrow> regexp" where
  "Repeat 0 r = EmptyMatch"
| "Repeat (Suc n) r = Concat r (Repeat n r)"

text \<open>\<open>regexp.MatchString\<close> reports whether the text contains a match, starting anywhere.\<close>

definition MatchString :: "regexp \<Rightarrow> string \<Rightarrow> bool" where
  "MatchString r s = list_ex (\<lambda>i. match_re r s i \<noteq> []) [0..<Suc (length s)]"

definition hex_class :: regexp where
  "hex_class = CharClass [(CHR ''0'', CHR ''9''), (CHR ''a'', CHR ''f''), (CHR ''A'', CHR ''F'')]"

definition address_pattern :: regexp where
  "address_pattern =
     Concat BeginText
       (Concat (Literal CHR ''0'')
         (Concat (Literal CHR ''x'')
           (Concat (Repeat 40 hex_class) EndText)))"

definition HasPrefix :: "string \<Rightarrow> string \<Rightarrow> bool" where
  "HasPrefix s prefix = (length prefix \<le> length s \<and> take (length prefix) s = prefix)"

definition IsValidAddress :: "string \<Rightarrow> bool" where
  "IsValidAddress address =
     (if length address \<noteq> 42 then False
      else if \<not> HasPrefix address ''0x'' then False
      else MatchString address_pattern address)"

definition is_hex_digit :: "char \<Rightarrow> bool" where
  "is_hex_digit c = (c \<in> set ''0123456789abcdefABCDEF'')"

subsection \<open>FormatAddress and the string functions it calls\<close>

text \<open>
  \<open>strings.TrimSpace\<close> and \<open>strings.ToLower\<close> decide ASCII input byte by byte and
  hand everything else to the Unicode tables of the standard library. Those tables are
  not part of the repository; they are a parameter of the model.
\<close>

record unicode_fallback =
  TrimFunc_IsSpace :: "string \<Rightarrow> string"
  TrimRightFunc_IsSpace :: "string \<Rightarrow> string"
  Map_ToLower :: "string \<Rightarrow> string"

definition RuneSelf :: nat where
  "RuneSelf = 0x80"

definition asciiSpace :: "char \<Rightarrow> bool" where
  "asciiSpace c = (c \<in> set [CHR 0x09, CHR 0x0A, CHR 0x0B, CHR 0x0C, CHR 0x0D, CHR '' ''])"

definition TrimSpace :: "unicode_fallback \<Rightarrow> string \<Rightarrow> string" where
  "TrimSpace U s =
     (let rest = dropWhile asciiSpace s in
      case rest of
        [] \<Rightarrow> []
      | c # _ \<Rightarrow>
          if byte c \<ge> RuneSelf then TrimFunc_IsSpace U rest
          else (let r = dropWhile asciiSpace (rev rest) in
                case r of
                  [] \<Rightarrow> []
                | d # _ \<Rightarrow>
                    if byte d \<ge> RuneSelf then TrimRightFunc_IsSpace U (rev r) else rev r))"

definition is_upper :: "char \<Rightarrow> bool" where
  "is_upper c = (byte CHR ''A'' \<le> byte c \<and> byte c \<le> byte CHR ''Z'')"

definition lower_byte :: "char \<Rightarrow> char" where
  "lower_byte c =
     (if is_upper c then char_of (byte c + (byte CHR ''a'' - byte CHR ''A'')) else c)"

definition ToLower :: "unicode_fallback \<Rightarrow> string \<Rightarrow> string" where
  "ToLower U s =
     (if list_all (\<lambda>c. byte c < RuneSelf) s
      then (if \<not> list_ex is_upper s then s else map lower_byte s)
      else Map_ToLower U s)"

definition FormatAddress :: "unicode_fallback \<Rightarrow> string \<Rightarrow> string" where
  "FormatAddress U address =
     (let address = TrimSpace U address;
          address = ToLower U address
      in if \<not> HasPrefix address ''0x'' then ''0x'' @ address else address)"

text \<open>A stand-in for the Unicode tables, used where a closed instance is evaluated.\<close>

definition no_unicode :: unicode_fallback where
  "no_unicode = \<lparr>TrimFunc_IsSpace = (\<lambda>s. s), TrimRightFunc_IsSpace = (\<lambda>s. s),
     Map_ToLower = (\<lambda>s. s)\<rparr>"

section \<open>The sliding-window rate limiter (package middleware)\<close>

text \<open>
  An instant is an integer, in nanoseconds on one clock; \<open>t.After(u)\<close> is \<open>u < t\<close>. A
  \<open>time.Duration\<close> is an \<open>int64\<close> of nanoseconds, so \<open>-rl.window\<close> is the negation
  of a 64-bit word and wraps at \<open>math.MinInt64\<close>. \<open>t.Add(d)\<close> moves an instant by the
  signed value of \<open>d\<close>; an instant counts seconds in an \<open>int64\<close>, which holds every
  such sum. The instant returned by \<open>time.Now()\<close> is an argument of each operation.
  Every operation runs between \<open>mu.Lock()\<close> and \<open>mu.Unlock()\<close>, so each is one
  atomic step on the limiter's state.
\<close>

type_synonym time = int

type_synonym Duration = "64 word"

definition Add :: "time \<Rightarrow> Duration \<Rightarrow> time" where
  "Add t d = t + sint d"

definition MinInt64 :: Duration where
  "MinInt64 = - 9223372036854775808"

record RateLimiter =
  ips :: "string \<rightharpoonup> time list"
  limit :: int
  window :: Duration
  whitelistIPs :: "string \<rightharpoonup> bool"

definition NewRateLimiter :: "int \<Rightarrow> Duration \<Rightarrow> RateLimiter" where
  "NewRateLimiter lim win =
     \<lparr>ips = Map.empty, limit = lim, window = win, whitelistIPs = Map.empty\<rparr>"

definition AddToWhitelist :: "string \<Rightarrow> RateLimiter \<Rightarrow> RateLimiter" where
  "AddToWhitelist ip rl = rl\<lparr>whitelistIPs := (whitelistIPs rl)(ip \<mapsto> True)\<rparr>"

definition RemoveFromWhitelist :: "string \<Rightarrow> RateLimiter \<Rightarrow> RateLimiter" where
  "RemoveFromWhitelist ip rl = rl\<lparr>whitelistIPs := (whitelistIPs rl)(ip := None)\<rparr>"

text \<open>Reading a \<open>map[string]bool\<close> at a missing key gives \<open>false\<close>.\<close>

definition whitelisted :: "RateLimiter \<Rightarrow> string \<Rightarrow> bool" where
  "whitelisted rl ip = (case whitelistIPs rl ip of None \<Rightarrow> False | Some b \<Rightarrow> b)"

text \<open>
  The pruning loop of \<open>Limit\<close> appends to \<open>rl.ips[ip][:0]\<close>, a slice of length 0 over
  the backing array of the stored slice: each kept timestamp is written back into that
  array, at the write index \<open>j\<close>, while the loop reads it at the index \<open>i\<close>.
  \<open>prune_inplace windowStart k i j arr\<close> runs the \<open>k\<close> iterations that remain and returns
  the array and the length of \<open>validRequests\<close>.
\<close>

fun prune_inplace :: "time \<Rightarrow> nat \<Rightarrow> nat \<Rightarrow> nat \<Rightarrow> time list \<Rightarrow> time list \<times> nat" where
  "prune_inplace windowStart 0 i j arr = (arr, j)"
| "prune_inplace windowStart (Suc k) i j arr =
     (let t = arr ! i in
      if windowStart < t then prune_inplace windowStart k (Suc i) (Suc j) (arr[j := t])
      else prune_inplace windowStart k (Suc i) j arr)"

text \<open>
  \<open>make([]time.Time, 0, cap)\<close> panics when \<open>cap\<close> is negative and when the bytes it
  asks for (24 for each \<open>time.Time\<close>) exceed the platform's \<open>maxAlloc\<close>; when memory
  is short the runtime stops before that. Either way the call does not return. The
  largest capacity that is served, \<open>maxCap\<close>, is a parameter here.
\<close>

definition makeslice_panics :: "int \<Rightarrow> int \<Rightarrow> bool" where
  "makeslice_panics maxCap cap = (cap < 0 \<or> maxCap < cap)"

text \<open>
  What the middleware does with the request: pass it on (\<open>c.Next()\<close>), answer 429 and
  abort, or panic inside \<open>make([]time.Time, 0, rl.limit)\<close> on the first request of an
  identity. The panic leaves the map as it was.

  On the rejecting path \<open>rl.ips[ip]\<close> is not assigned: the map keeps the slice of the
  old length over the array the loop has written to.
\<close>

datatype outcome = Next | TooManyRequests | MakeslicePanic

definition Limit :: "int \<Rightarrow> time \<Rightarrow> string \<Rightarrow> RateLimiter \<Rightarrow> outcome \<times> RateLimiter" where
  "Limit maxCap now ip rl =
     (if whitelisted rl ip then (Next, rl)
      else if ips rl ip = None \<and> makeslice_panics maxCap (limit rl) then (MakeslicePanic, rl)
      else
        let stored = (case ips rl ip of None \<Rightarrow> [] | Some ts \<Rightarrow> ts);
            windowStart = Add now (- window rl);
            (arr, j) = prune_inplace windowStart (length stored) 0 0 stored;
            validRequests = take j arr
        in if int (length validRequests) \<ge> limit rl
           then (TooManyRequests, rl\<lparr>ips := (ips rl)(ip \<mapsto> arr)\<rparr>)
           else (Next, rl\<lparr>ips := (ips rl)(ip \<mapsto> validRequests @ [now])\<rparr>))"

text \<open>
  \<open>cleanup\<close> ranges over the map; \<open>order\<close> is the order in which the range yields the
  keys. An iteration changes the entry of its own key only.
\<close>

fun cleanup_loop :: "time \<Rightarrow> string list \<Rightarrow> RateLimiter \<Rightarrow> RateLimiter" where
  "cleanup_loop windowStart [] rl = rl"
| "cleanup_loop windowStart (ip # rest) rl =
     (case ips rl ip of
        None \<Rightarrow> cleanup_loop windowStart rest rl
      | Some tms \<Rightarrow>
          (let validTimes = filter (\<lambda>t. windowStart < t) tms in
           if length validTimes = 0
           then cleanup_loop windowStart rest (rl\<lparr>ips := (ips rl)(ip := None)\<rparr>)
           else cleanup_loop windowStart rest (rl\<lparr>ips := (ips rl)(ip \<mapsto> validTimes)\<rparr>)))"

definition cleanup :: "time \<Rightarrow> string list \<Rightarrow> RateLimiter \<Rightarrow> RateLimiter" where
  "cleanup now order rl = cleanup_loop (Add now (- window rl)) order rl"

subsection \<open>Histories of the limiter\<close>

text \<open>
  A history is a sequence of the limiter's operations: requests passing through
  \<open>Limit\<close>, runs of the background \<open>cleanup\<close>, and changes of the whitelist. \<open>run\<close>
  executes a history and records the outcome of every request. A panic ends the
  history: it is raised with the mutex held, and no later operation gets to the state.
  A history may hold a sweep at any instant and in any number, which covers the
  goroutine that sleeps for \<open>window\<close> between two runs of \<open>cleanup\<close>.
\<close>

datatype event =
    Request time string
  | Sweep time "string list"
  | Allow string
  | Disallow string

type_synonym request_log = "(string \<times> time \<times> outcome) list"

fun run :: "int \<Rightarrow> event list \<Rightarrow> RateLimiter \<times> request_log \<Rightarrow> RateLimiter \<times> request_log" where
  "run maxCap [] st = st"
| "run maxCap (Request now ip # es) (rl, log) =
     (case Limit maxCap now ip rl of
        (MakeslicePanic, rl') \<Rightarrow> (rl', log @ [(ip, now, MakeslicePanic)])
      | (out, rl') \<Rightarrow> run maxCap es (rl', log @ [(ip, now, out)]))"
| "run maxCap (Sweep now order # es) (rl, log) = run maxCap es (cleanup now order rl, log)"
| "run maxCap (Allow ip # es) (rl, log) = run maxCap es (AddToWhitelist ip rl, log)"
| "run maxCap (Disallow ip # es) (rl, log) = run maxCap es (RemoveFromWhitelist ip rl, log)"

definition admitted :: "string \<Rightarrow> request_log \<Rightarrow> time list" where
  "admitted ip log = map (fst \<circ> snd) (filter (\<lambda>e. fst e = ip \<and> snd (snd e) = Next) log)"

definition outcomes :: "request_log \<Rightarrow> outcome list" where
  "outcomes log = map (snd \<circ> snd) log"

definition in_window :: "time \<Rightarrow> time list \<Rightarrow> time list" where
  "in_window windowStart ts = filter (\<lambda>t. windowStart < t) ts"

text \<open>The slice stored for a key; a missing key reads as the empty slice.\<close>

definition stored :: "RateLimiter \<Rightarrow> string \<Rightarrow> time list" where
  "stored rl ip = (case ips rl ip of None \<Rightarrow> [] | Some ts \<Rightarrow> ts)"

text \<open>
  The invariant of the histories: no stored slice is longer than \<open>limit\<close>, and every
  stored timestamp is the instant of an admitted request of that identity, counted with
  multiplicity.
\<close>

definition limiter_inv :: "RateLimiter \<Rightarrow> request_log \<Rightarrow> bool" where
  "limiter_inv rl log =
     (\<forall>ip ts. ips rl ip = Some ts \<longrightarrow>
        int (length ts) \<le> limit rl \<and> mset ts \<subseteq># mset (admitted ip log))"

text \<open>What one iteration of \<open>cleanup\<close> leaves of an entry.\<close>

definition prune_entry :: "time \<Rightarrow> time list option \<Rightarrow> time list option" where
  "prune_entry ws e = (case e of None \<Rightarrow> None
     | Some ts \<Rightarrow> if in_window ws ts = [] then None else Some (in_window ws ts))"

text \<open>
  The admission rule in the words of the specification: compute
  \<open>windowStart = now - window\<close>, drop all stored timestamps older than \<open>windowStart\<close>,
  admit iff the remaining count is strictly less than \<open>limit\<close>, and on admission append
  \<open>now\<close> to the retained timestamps.
\<close>

definition Admit_spec :: "time \<Rightarrow> int \<Rightarrow> int \<Rightarrow> time list \<Rightarrow> bool \<times> time list" where
  "Admit_spec now lim win ts =
     (let windowStart = now - win;
          retained = filter (\<lambda>t. \<not> t < windowStart) ts
      in if int (length retained) < lim then (True, retained @ [now]) else (False, retained))"

section \<open>The aggregation of the three upstream calls (packages usecase and persistence)\<close>

subsection \<open>Errors and entities\<close>

text \<open>
  An error is an error of the node client or of the context, carrying its text, or the
  result of \<open>fmt.Errorf(prefix + "%w", err)\<close>, which wraps an error behind a prefix.
  \<open>err_Error\<close> is the method \<open>Error()\<close>.
\<close>

datatype error = ErrorString string | Errorf string error

fun err_Error :: "error \<Rightarrow> string" where
  "err_Error (ErrorString s) = s"
| "err_Error (Errorf prefix e) = prefix @ err_Error e"

text \<open>
  The entities of package \<open>entity\<close>. A \<open>*big.Int\<close> is an unbounded integer or
  \<open>nil\<close>. The two \<open>float64\<close> fields are computed by \<open>math/big\<close>; their type \<open>'f\<close>
  and the conversion are parameters of the aggregation, and \<open>QuoFloat64\<close> below is the
  conversion of the code.
\<close>

record 'f GasPrice =
  Wei :: "int option"
  Gwei :: 'f

record 'f Balance =
  Wei :: "int option"
  Ether :: 'f

record 'f AddressInfo =
  Address :: string
  GasPrice :: "'f GasPrice"
  CurrentBlock :: "64 word"
  Balance :: "'f Balance"
  Timestamp :: time

subsection \<open>The three calls and the channels\<close>

text \<open>
  What the three calls of the repository return: an error, or a value (the node client
  returns a non-nil integer with a nil error).
\<close>

record repo_results =
  GetGasPrice :: "error + int"
  GetCurrentBlock :: "error + 64 word"
  GetAddressBalance :: "error + int"

datatype upstream = GasPriceCall | BlockNumberCall | BalanceCall

text \<open>
  The state of one invocation: the buffered \<open>errCh\<close>, a sender waiting on each of the
  three unbuffered channels, the error of the context once it is done, the goroutines
  that have finished their call, the three result variables and the loop counter \<open>i\<close>.
\<close>

record wait_state =
  errCh :: "error list"
  gasPriceCh :: "int option"
  blockNumberCh :: "64 word option"
  balanceCh :: "int option"
  ctxErr :: "error option"
  finished :: "upstream set"
  gasPrice :: "int option"
  blockNumber :: "64 word"
  balance :: "int option"
  loop_i :: nat

definition init_state :: wait_state where
  "init_state = \<lparr>errCh = [], gasPriceCh = None, blockNumberCh = None, balanceCh = None,
     ctxErr = None, finished = {}, gasPrice = None, blockNumber = 0, balance = None, loop_i = 0\<rparr>"

text \<open>
  A goroutine whose call has returned sends the wrapped error to \<open>errCh\<close>, which has
  room for all three, or offers its value on its own channel.
\<close>

fun finish :: "repo_results \<Rightarrow> upstream \<Rightarrow> wait_state \<Rightarrow> wait_state" where
  "finish res GasPriceCall s =
     (case GetGasPrice res of
        Inl err \<Rightarrow> s\<lparr>errCh := errCh s @ [Errorf ''failed to get gas price: '' err]\<rparr>
      | Inr v \<Rightarrow> s\<lparr>gasPriceCh := Some v\<rparr>)"
| "finish res BlockNumberCall s =
     (case GetCurrentBlock res of
        Inl err \<Rightarrow> s\<lparr>errCh := errCh s @ [Errorf ''failed to get block number: '' err]\<rparr>
      | Inr v \<Rightarrow> s\<lparr>blockNumberCh := Some v\<rparr>)"
| "finish res BalanceCall s =
     (case GetAddressBalance res of
        Inl err \<Rightarrow> s\<lparr>errCh := errCh s @ [Errorf ''failed to get balance: '' err]\<rparr>
      | Inr v \<Rightarrow> s\<lparr>balanceCh := Some v\<rparr>)"

text \<open>
  A schedule is the sequence of things that happen while the loop waits: a goroutine's
  call returns, the context is cancelled or times out, or the \<open>select\<close> of the loop
  commits to one of its five cases. A case that is not ready cannot be taken, and a
  goroutine finishes once.
\<close>

datatype select_case = CaseCtxDone | CaseErrCh | CaseGasPriceCh | CaseBlockNumberCh | CaseBalanceCh

datatype sched_event = Finish upstream | Cancel error | Select select_case

text \<open>
  One event while the loop waits. \<open>Inl err\<close>: the \<open>select\<close> took a case that returns
  \<open>nil, err\<close>. \<open>Inr s\<close>: the loop goes on in state \<open>s\<close>, with \<open>i\<close> advanced when
  a value was received.
\<close>

fun on_event :: "repo_results \<Rightarrow> sched_event \<Rightarrow> wait_state \<Rightarrow> error + wait_state" where
  "on_event res (Finish u) s =
     (if u \<in> finished s then Inr s
      else Inr (finish res u (s\<lparr>finished := insert u (finished s)\<rparr>)))"
| "on_event res (Cancel e) s =
     (case ctxErr s of None \<Rightarrow> Inr (s\<lparr>ctxErr := Some e\<rparr>) | Some _ \<Rightarrow> Inr s)"
| "on_event res (Select CaseCtxDone) s =
     (case ctxErr s of Some e \<Rightarrow> Inl (Errorf ''context cancelled: '' e) | None \<Rightarrow> Inr s)"
| "on_event res (Select CaseErrCh) s =
     (case errCh s of err # _ \<Rightarrow> Inl err | [] \<Rightarrow> Inr s)"
| "on_event res (Select CaseGasPriceCh) s =
     (case gasPriceCh s of
        Some v \<Rightarrow> Inr (s\<lparr>gasPriceCh := None, gasPrice := Some v, loop_i := Suc (loop_i s)\<rparr>)
      | None \<Rightarrow> Inr s)"
| "on_event res (Select CaseBlockNumberCh) s =
     (case blockNumberCh s of
        Some v \<Rightarrow> Inr (s\<lparr>blockNumberCh := None, blockNumber := v, loop_i := Suc (loop_i s)\<rparr>)
      | None \<Rightarrow> Inr s)"
| "on_event res (Select CaseBalanceCh) s =
     (case balanceCh s of
        Some v \<Rightarrow> Inr (s\<lparr>balanceCh := None, balance := Some v, loop_i := Suc (loop_i s)\<rparr>)
      | None \<Rightarrow> Inr s)"

text \<open>
  The loop \<open>for i := 0; i < 3; i++\<close> under a schedule: it completes after three
  received values, returns early with an error, or is still waiting when the schedule
  ends.
\<close>

datatype wait_result = Completed wait_state | Failed error | Blocked

fun wait :: "repo_results \<Rightarrow> wait_state \<Rightarrow> sched_event list \<Rightarrow> wait_result" where
  "wait res s [] = (if loop_i s < 3 then Blocked else Completed s)"
| "wait res s (ev # evs) =
     (if \<not> loop_i s < 3 then Completed s
      else case on_event res ev s of
             Inl err \<Rightarrow> Failed err
           | Inr s' \<Rightarrow> wait res s' evs)"

text \<open>
  \<open>GetAddressInfo\<close> returns a pointer and an error, each of which may be nil, unless it
  panics or never returns. After the loop it converts the two integers, which
  dereferences both pointers. The method of the use case and the method of the
  repository have this same body, over the same three calls.
\<close>

datatype 'a exec = Returns 'a | Panics | Blocks

definition GetAddressInfo ::
  "(int \<Rightarrow> int \<Rightarrow> 'f) \<Rightarrow> time \<Rightarrow> repo_results \<Rightarrow> sched_event list \<Rightarrow> string
     \<Rightarrow> ('f AddressInfo option \<times> error option) exec" where
  "GetAddressInfo quo_float64 now res evs address =
     (case wait res init_state evs of
        Blocked \<Rightarrow> Blocks
      | Failed err \<Rightarrow> Returns (None, Some err)
      | Completed s \<Rightarrow>
          (case (gasPrice s, balance s) of
             (Some g, Some b) \<Rightarrow>
               Returns (Some \<lparr>Address = address,
                               GasPrice = \<lparr>GasPrice.Wei = Some g, Gwei = quo_float64 g (10 ^ 9)\<rparr>,
                               CurrentBlock = blockNumber s,
                               Balance = \<lparr>Balance.Wei = Some b, Ether = quo_float64 b (10 ^ 18)\<rparr>,
                               Timestamp = now\<rparr>, None)
           | _ \<Rightarrow> Panics))"

text \<open>The events after which nothing is left to wait for.\<close>

definition drain :: "sched_event list" where
  "drain = [Finish GasPriceCall, Finish BlockNumberCall, Finish BalanceCall,
            Select CaseErrCh, Select CaseGasPriceCh, Select CaseBlockNumberCh, Select CaseBalanceCh]"

subsection \<open>The conversion to \<open>float64\<close> (package \<open>math/big\<close>)\<close>

text \<open>
  The two fields are \<open>new(big.Float).Quo(new(big.Float).SetInt(x), new(big.Float).SetInt(y))\<close>
  followed by \<open>Float64()\<close>, with \<open>y\<close> the constant \<open>10^9\<close> or \<open>10^18\<close>;
  \<open>QuoFloat64 x y\<close> below is this composition. All of it is integer arithmetic.
  \<open>BitLen\<close> is the length of the absolute value in bits.
\<close>

fun BitLen :: "nat \<Rightarrow> nat" where
  "BitLen n = (if n = 0 then 0 else Suc (BitLen (n div 2)))"

declare BitLen.simps [simp del]











section \<open>Responses, the handler and the recovery middleware\<close>

subsection \<open>Package response\<close>

text \<open>
  A response is a status code and a JSON object, given as its members in order. The
  \<open>Response\<close> struct marks \<open>message\<close>, \<open>data\<close> and \<open>error\<close> as \<open>omitempty\<close>.
\<close>

datatype 'd json_value = JString string | JData 'd

type_synonym 'd http_response = "nat \<times> (string \<times> 'd json_value) list"

record 'd Response =
  Status :: string
  Message :: string
  Data :: "'d option"
  Error :: string

definition JSON :: "nat \<Rightarrow> 'd Response \<Rightarrow> 'd http_response" where
  "JSON statusCode r =
     (statusCode,
      [(''status'', JString (Status r))] @
      (if Message r = [] then [] else [(''message'', JString (Message r))]) @
      (case Data r of None \<Rightarrow> [] | Some d \<Rightarrow> [(''data'', JData d)]) @
      (if Error r = [] then [] else [(''error'', JString (Error r))]))"

definition NewErrorResponse :: "nat \<Rightarrow> string \<Rightarrow> error option \<Rightarrow> 'd http_response" where
  "NewErrorResponse statusCode message err =
     (let errMsg = (case err of None \<Rightarrow> [] | Some e \<Rightarrow> err_Error e)
      in JSON statusCode \<lparr>Status = ''error'', Message = message, Data = None, Error = errMsg\<rparr>)"

definition NewSuccessResponse :: "nat \<Rightarrow> 'd \<Rightarrow> 'd http_response" where
  "NewSuccessResponse statusCode d =
     JSON statusCode \<lparr>Status = ''success'', Message = [], Data = Some d, Error = []\<rparr>"

definition BadRequest :: "string \<Rightarrow> error option \<Rightarrow> 'd http_response" where
  "BadRequest message err = NewErrorResponse 400 message err"

definition Success :: "'d \<Rightarrow> 'd http_response" where
  "Success d = NewSuccessResponse 200 d"

definition InternalServerError :: "error \<Rightarrow> 'd http_response" where
  "InternalServerError err = NewErrorResponse 500 ''Internal server error'' (Some err)"

definition TooManyRequestsResponse :: "'d http_response" where
  "TooManyRequestsResponse = NewErrorResponse 429 ''Rate limit exceeded. Try again later.'' None"

text \<open>
  \<open>FormatAddressInfo\<close> renders the integers in decimal (\<open>(*big.Int).String\<close>, which
  prints \<open><nil>\<close> for a nil pointer) and the time with \<open>time.RFC3339\<close>; the layout of
  a time is a parameter.
\<close>

fun decimal :: "nat \<Rightarrow> string" where
  "decimal n =
     (if n < 10 then [char_of (48 + n)] else decimal (n div 10) @ [char_of (48 + n mod 10)])"

definition big_Int_String :: "int option \<Rightarrow> string" where
  "big_Int_String x =
     (case x of
        None \<Rightarrow> ''<nil>''
      | Some n \<Rightarrow> if n < 0 then ''-'' @ decimal (nat (- n)) else decimal (nat n))"

record 'f GasPriceResponse =
  Wei :: string
  Gwei :: 'f

record 'f BalanceResponse =
  Wei :: string
  Ether :: 'f

record 'f AddressInfoResponse =
  Address :: string
  GasPrice :: "'f GasPriceResponse"
  CurrentBlock :: "64 word"
  Balance :: "'f BalanceResponse"
  Timestamp :: string

definition FormatAddressInfo :: "(time \<Rightarrow> string) \<Rightarrow> 'f AddressInfo \<Rightarrow> 'f AddressInfoResponse" where
  "FormatAddressInfo RFC3339 info =
     \<lparr>AddressInfoResponse.Address = AddressInfo.Address info,
      GasPrice = \<lparr>GasPriceResponse.Wei = big_Int_String (GasPrice.Wei (AddressInfo.GasPrice info)),
                  Gwei = GasPrice.Gwei (AddressInfo.GasPrice info)\<rparr>,
      CurrentBlock = AddressInfo.CurrentBlock info,
      Balance = \<lparr>BalanceResponse.Wei = big_Int_String (Balance.Wei (AddressInfo.Balance info)),
                 Ether = Balance.Ether (AddressInfo.Balance info)\<rparr>,
      Timestamp = RFC3339 (AddressInfo.Timestamp info)\<rparr>"

subsection \<open>The handler\<close>

text \<open>
  \<open>(*EthereumHandler).GetAddressInfo\<close>: validate, normalise, call the use case, and
  answer. It tests \<open>err != nil\<close> first and dereferences the pointer otherwise.
\<close>

definition Handler_GetAddressInfo ::
  "unicode_fallback \<Rightarrow> (int \<Rightarrow> int \<Rightarrow> 'f) \<Rightarrow> (time \<Rightarrow> string) \<Rightarrow> time \<Rightarrow> repo_results
     \<Rightarrow> sched_event list \<Rightarrow> string \<Rightarrow> 'f AddressInfoResponse http_response exec" where
  "Handler_GetAddressInfo U quo_float64 RFC3339 now res evs address =
     (if \<not> IsValidAddress address
      then Returns (BadRequest ''Invalid Ethereum address format'' None)
      else
        case GetAddressInfo quo_float64 now res evs (FormatAddress U address) of
          Blocks \<Rightarrow> Blocks
        | Panics \<Rightarrow> Panics
        | Returns (addressInfo, Some err) \<Rightarrow> Returns (InternalServerError err)
        | Returns (Some addressInfo, None) \<Rightarrow>
            Returns (Success (FormatAddressInfo RFC3339 addressInfo))
        | Returns (None, None) \<Rightarrow> Panics)"

subsection \<open>Recovery\<close>

text \<open>
  The rest of the chain, run by \<open>c.Next()\<close>, either returns, leaving the response it
  wrote, or panics with a value; \<open>Inl v\<close> is a panic whose value prints as \<open>v\<close>. On a
  panic \<open>Recovery\<close> logs the request identifier, the value and the stack at error
  level and answers with a \<open>gin.H\<close> of two members, which JSON orders by key.
\<close>

record log_entry =
  level :: string
  msg :: string
  log_fields :: "(string \<times> string) list"

definition Recovery ::
  "string \<Rightarrow> string \<Rightarrow> string + 'd http_response \<Rightarrow> log_entry list \<times> 'd http_response" where
  "Recovery requestID stack next =
     (case next of
        Inl err \<Rightarrow>
          ([\<lparr>level = ''error'', msg = ''Panic recovered'',
             log_fields = [(''request_id'', requestID), (''error'', err), (''stack'', stack)]\<rparr>],
           (500, [(''message'', JString ''Internal server error''), (''status'', JString ''error'')]))
      | Inr r \<Rightarrow> ([], r))"

section \<open>The timeout middleware (package middleware)\<close>

text \<open>
  \<open>Timeout\<close> starts a goroutine that runs the rest of the chain (\<open>c.Next()\<close>) and then
  closes \<open>done\<close>, and waits in a \<open>select\<close> for \<open>done\<close> or for the context to be done;
  in the second case it writes the 408 response with \<open>c.AbortWithStatusJSON\<close> and
  returns. Both goroutines write to the same context \<open>c\<close>. The state keeps the responses
  written on \<open>c\<close>, in order and with their writer, the responses the handler in flight
  has still to write before \<open>c.Next()\<close> returns, whether \<open>done\<close> is closed, whether
  the context is done, and the branch by which the middleware has returned, if it has.
  Returning runs the deferred \<open>cancel()\<close>.
\<close>

datatype writer = InFlightHandler | TimeoutMiddleware

datatype select_branch = TookDone | TookCtxDone

record 'd timeout_state =
  written :: "(writer \<times> 'd http_response) list"
  todo :: "'d http_response list"
  done_closed :: bool
  ctx_done :: bool
  branch :: "select_branch option"

definition timeout_response :: "'d http_response" where
  "timeout_response =
     (408, [(''message'', JString ''Request timed out''), (''status'', JString ''error'')])"

text \<open>
  The events of a schedule: the goroutine takes its next step (the next write of the
  handler, or the return of \<open>c.Next()\<close> followed by \<open>close(done)\<close>), the deadline
  passes, or the \<open>select\<close> commits to one of its two cases, which it can only do when
  the case is ready and the middleware has not returned yet. Nothing stops the
  goroutine when the middleware returns.
\<close>

datatype timeout_event = InnerStep | Deadline | SelectDone | SelectCtxDone

fun timeout_step :: "'d timeout_state \<Rightarrow> timeout_event \<Rightarrow> 'd timeout_state" where
  "timeout_step s InnerStep =
     (case todo s of
        r # rs \<Rightarrow> s\<lparr>written := written s @ [(InFlightHandler, r)], todo := rs\<rparr>
      | [] \<Rightarrow> s\<lparr>done_closed := True\<rparr>)"
| "timeout_step s Deadline = s\<lparr>ctx_done := True\<rparr>"
| "timeout_step s SelectDone =
     (if branch s = None \<and> done_closed s
      then s\<lparr>ctx_done := True, branch := Some TookDone\<rparr>
      else s)"
| "timeout_step s SelectCtxDone =
     (if branch s = None \<and> ctx_done s
      then s\<lparr>written := written s @ [(TimeoutMiddleware, timeout_response)],
             branch := Some TookCtxDone\<rparr>
      else s)"

definition Timeout :: "'d http_response list \<Rightarrow> timeout_event list \<Rightarrow> 'd timeout_state" where
  "Timeout inner evs =
     foldl timeout_step
       \<lparr>written = [], todo = inner, done_closed = False, ctx_done = False, branch = None\<rparr> evs"

definition written_by :: "writer \<Rightarrow> 'd timeout_state \<Rightarrow> 'd http_response list" where
  "written_by w s = map snd (filter (\<lambda>e. fst e = w) (written s))"

text \<open>The invariant of the schedules of \<open>Timeout\<close>.\<close>

definition timeout_inv :: "'d http_response list \<Rightarrow> 'd timeout_state \<Rightarrow> bool" where
  "timeout_inv inner s =
     (written_by InFlightHandler s @ todo s = inner \<and>
      written_by TimeoutMiddleware s =
        (if branch s = Some TookCtxDone then [timeout_response] else []))"

section \<open>Predicates and invariants used in the statements\<close>

text \<open>
  The errors \<open>GetAddressInfo\<close> can return: one of the three wrapped upstream errors,
  or the wrapped error of the context.
\<close>

definition upstream_failure :: "repo_results \<Rightarrow> error \<Rightarrow> bool" where
  "upstream_failure res e =
     ((\<exists>err. GetGasPrice res = Inl err \<and> e = Errorf ''failed to get gas price: '' err) \<or>
      (\<exists>err. GetCurrentBlock res = Inl err \<and> e = Errorf ''failed to get block number: '' err) \<or>
      (\<exists>err. GetAddressBalance res = Inl err \<and> e = Errorf ''failed to get balance: '' err))"

definition context_failure :: "error \<Rightarrow> bool" where
  "context_failure e = (\<exists>c. e = Errorf ''context cancelled: '' c)"

text \<open>The invariant of the waiting loop.\<close>

definition block_received :: "repo_results \<Rightarrow> wait_state \<Rightarrow> bool" where
  "block_received res s =
     (BlockNumberCall \<in> finished s \<and> blockNumberCh s = None \<and> (\<exists>v. GetCurrentBlock res = Inr v))"

definition gas_inv :: "repo_results \<Rightarrow> wait_state \<Rightarrow> bool" where
  "gas_inv res s =
     (if GasPriceCall \<in> finished s
      then (case GetGasPrice res of
              Inl _ \<Rightarrow> errCh s \<noteq> [] \<and> gasPriceCh s = None \<and> gasPrice s = None
            | Inr v \<Rightarrow> (gasPriceCh s = Some v \<and> gasPrice s = None) \<or>
                       (gasPriceCh s = None \<and> gasPrice s = Some v))
      else gasPriceCh s = None \<and> gasPrice s = None)"

definition block_inv :: "repo_results \<Rightarrow> wait_state \<Rightarrow> bool" where
  "block_inv res s =
     ((if BlockNumberCall \<in> finished s
       then (case GetCurrentBlock res of
               Inl _ \<Rightarrow> errCh s \<noteq> [] \<and> blockNumberCh s = None
             | Inr v \<Rightarrow> blockNumberCh s = Some v \<or> blockNumberCh s = None)
       else blockNumberCh s = None) \<and>
      (block_received res s \<longrightarrow> GetCurrentBlock res = Inr (blockNumber s)))"

definition balance_inv :: "repo_results \<Rightarrow> wait_state \<Rightarrow> bool" where
  "balance_inv res s =
     (if BalanceCall \<in> finished s
      then (case GetAddressBalance res of
              Inl _ \<Rightarrow> errCh s \<noteq> [] \<and> balanceCh s = None \<and> balance s = None
            | Inr v \<Rightarrow> (balanceCh s = Some v \<and> balance s = None) \<or>
                       (balanceCh s = None \<and> balance s = Some v))
      else balanceCh s = None \<and> balance s = None)"

definition received :: "repo_results \<Rightarrow> wait_state \<Rightarrow> nat" where
  "received res s =
     (if gasPrice s \<noteq> None then 1 else 0) + (if block_received res s then 1 else 0)
       + (if balance s \<noteq> None then 1 else 0)"

definition wait_inv :: "repo_results \<Rightarrow> wait_state \<Rightarrow> bool" where
  "wait_inv res s =
     ((\<forall>e\<in>set (errCh s). upstream_failure res e) \<and> loop_i s = received res s \<and>
      gas_inv res s \<and> block_inv res s \<and> balance_inv res s)"

text \<open>Results of the three calls used in the examples below.\<close>

definition ok_results :: repo_results where
  "ok_results = \<lparr>GetGasPrice = Inr 12000000000, GetCurrentBlock = Inr 18782549,
     GetAddressBalance = Inr 2500000000000000000\<rparr>"

definition gas_fails :: repo_results where
  "gas_fails = \<lparr>GetGasPrice = Inl (ErrorString ''connection refused''), GetCurrentBlock = Inr 18782549,
     GetAddressBalance = Inr 2500000000000000000\<rparr>"

definition zero_info :: "(int \<times> int) AddressInfo" where
  "zero_info =
     \<lparr>AddressInfo.Address = ''0x0000000000000000000000000000000000000000'',
      AddressInfo.GasPrice = \<lparr>GasPrice.Wei = Some 12000000000, GasPrice.Gwei = (12000000000, 10 ^ 9)\<rparr>,
      AddressInfo.CurrentBlock = 18782549,
      AddressInfo.Balance = \<lparr>Balance.Wei = Some 2500000000000000000,
                               Balance.Ether = (2500000000000000000, 10 ^ 18)\<rparr>,
      AddressInfo.Timestamp = 7\<rparr>"

definition node_down :: repo_results where
  "node_down = \<lparr>GetGasPrice = Inl (ErrorString ''dial tcp 10.0.0.5:8545: connect: connection refused''),
     GetCurrentBlock = Inr 18782549, GetAddressBalance = Inr 2500000000000000000\<rparr>"


section \<open>Properties of the validator\<close>

lemma byte_inj: "byte c = byte d \<longleftrightarrow> c = d"
  by (simp add: byte_def)

lemma byte_Char:
  "byte (Char b0 b1 b2 b3 b4 b5 b6 b7) = of_char (Char b0 b1 b2 b3 b4 b5 b6 b7)"
  by (simp add: byte_def)

lemma byte_in_setI: "\<exists>d\<in>set ds. byte c = byte d \<Longrightarrow> c \<in> set ds"
  by (auto simp: byte_inj)

lemma hex_ranges_iff:
  "list_ex (in_range c) [(CHR ''0'', CHR ''9''), (CHR ''a'', CHR ''f''), (CHR ''A'', CHR ''F'')]
     = is_hex_digit c"
proof
  assume "list_ex (in_range c) [(CHR ''0'', CHR ''9''), (CHR ''a'', CHR ''f''), (CHR ''A'', CHR ''F'')]"
  then consider "48 \<le> byte c \<and> byte c \<le> 57" | "97 \<le> byte c \<and> byte c \<le> 102"
    | "65 \<le> byte c \<and> byte c \<le> 70"
    by (auto simp: in_range_def byte_Char)
  then show "is_hex_digit c"
  proof cases
    case 1
    then have "\<exists>d\<in>set ''0123456789''. byte c = byte d"
      by (simp add: byte_Char) arith
    then have "c \<in> set ''0123456789''" by (rule byte_in_setI)
    then show ?thesis by (auto simp: is_hex_digit_def)
  next
    case 2
    then have "\<exists>d\<in>set ''abcdef''. byte c = byte d"
      by (simp add: byte_Char) arith
    then have "c \<in> set ''abcdef''" by (rule byte_in_setI)
    then show ?thesis by (auto simp: is_hex_digit_def)
  next
    case 3
    then have "\<exists>d\<in>set ''ABCDEF''. byte c = byte d"
      by (simp add: byte_Char) arith
    then have "c \<in> set ''ABCDEF''" by (rule byte_in_setI)
    then show ?thesis by (auto simp: is_hex_digit_def)
  qed
next
  assume "is_hex_digit c"
  then show "list_ex (in_range c) [(CHR ''0'', CHR ''9''), (CHR ''a'', CHR ''f''), (CHR ''A'', CHR ''F'')]"
    by (auto simp: is_hex_digit_def in_range_def byte_def)
qed

lemma match_repeat_class:
  "i \<le> length s \<Longrightarrow> match_re (Repeat n (CharClass rs)) s i =
     (if i + n \<le> length s \<and> (\<forall>k<n. list_ex (in_range (s ! (i + k))) rs) then [i + n] else [])"
proof (induction n arbitrary: i)
  case 0
  then show ?case by simp
next
  case (Suc n)
  have "(\<forall>k<Suc n. list_ex (in_range (s ! (i + k))) rs) \<longleftrightarrow>
        list_ex (in_range (s ! i)) rs \<and> (\<forall>k<n. list_ex (in_range (s ! (Suc i + k))) rs)"
    by (auto simp: less_Suc_eq_0_disj)
  with Suc show ?case by auto
qed

lemma match_repeat_hex:
  "i \<le> length s \<Longrightarrow> match_re (Repeat n hex_class) s i =
     (if i + n \<le> length s \<and> (\<forall>k<n. is_hex_digit (s ! (i + k))) then [i + n] else [])"
  unfolding hex_class_def by (simp only: match_repeat_class hex_ranges_iff)

lemma match_address_pattern:
  "match_re address_pattern s i =
    (if i = 0 \<and> length s = 42 \<and> s ! 0 = CHR ''0'' \<and> s ! 1 = CHR ''x'' \<and>
        (\<forall>k<40. is_hex_digit (s ! (2 + k))) then [42] else [])"
  by (auto simp: address_pattern_def match_repeat_hex)

lemma MatchString_address_pattern:
  "MatchString address_pattern s \<longleftrightarrow>
     length s = 42 \<and> s ! 0 = CHR ''0'' \<and> s ! 1 = CHR ''x'' \<and> (\<forall>k<40. is_hex_digit (s ! (2 + k)))"
  unfolding MatchString_def list_ex_iff match_address_pattern by auto

lemma IsValidAddress_iff:
  "IsValidAddress a \<longleftrightarrow> (\<exists>h. a = ''0x'' @ h \<and> length h = 40 \<and> (\<forall>c\<in>set h. is_hex_digit c))"
proof
  assume v: "IsValidAddress a"
  then have l: "length a = 42" and m: "MatchString address_pattern a"
    by (auto simp: IsValidAddress_def split: if_splits)
  from m have 0: "a ! 0 = CHR ''0''" and 1: "a ! 1 = CHR ''x''"
    and h: "\<forall>k<40. is_hex_digit (a ! (2 + k))"
    by (auto simp: MatchString_address_pattern)
  have "a = take 2 a @ drop 2 a" by simp
  moreover have "take 2 a = ''0x''" using l 0 1
    by (simp add: list_eq_iff_nth_eq less_Suc_eq numeral_2_eq_2)
  moreover have "length (drop 2 a) = 40" using l by simp
  moreover have "\<forall>c\<in>set (drop 2 a). is_hex_digit c"
    using h l by (auto simp: in_set_conv_nth)
  ultimately show "\<exists>h. a = ''0x'' @ h \<and> length h = 40 \<and> (\<forall>c\<in>set h. is_hex_digit c)"
    by metis
next
  assume "\<exists>h. a = ''0x'' @ h \<and> length h = 40 \<and> (\<forall>c\<in>set h. is_hex_digit c)"
  then obtain h where a: "a = ''0x'' @ h" and l: "length h = 40" and h: "\<forall>c\<in>set h. is_hex_digit c"
    by blast
  have "MatchString address_pattern a"
    using a l h by (auto simp: MatchString_address_pattern nth_append)
  then show "IsValidAddress a"
    using a l by (simp add: IsValidAddress_def HasPrefix_def)
qed

text \<open>
  Claim C6. \<open>IsValidAddress\<close> returns true exactly for the strings made of the two
  characters \<open>0x\<close> followed by exactly 40 hexadecimal characters (0-9, a-f, A-F); every
  other string (another length, no prefix, a character after the prefix that is not a
  hexadecimal digit) is rejected.
\<close>

theorem IsValidAddress_exact:
  "IsValidAddress a \<longleftrightarrow>
     (\<exists>h. a = ''0x'' @ h \<and> length h = 40 \<and> (\<forall>c\<in>set h. is_hex_digit c))"
  by (rule IsValidAddress_iff)

theorem IsValidAddress_exact_witness:
  "IsValidAddress ''0x742d35Cc6634C0532925a3b844Bc454e4438f44e'' \<and>
   \<not> IsValidAddress ''0x742d35Cc6634C0532925a3b844Bc454e4438f44'' \<and>
   \<not> IsValidAddress ''0x742d35Cc6634C0532925a3b844Bc454e4438f44e0'' \<and>
   \<not> IsValidAddress ''00742d35Cc6634C0532925a3b844Bc454e4438f44e'' \<and>
   \<not> IsValidAddress ''0x742d35Cc6634C0532925a3b844Bc454e4438f44g''"
  by (simp add: IsValidAddress_exact is_hex_digit_def)







section \<open>Properties of the rate limiter\<close>

subsection \<open>The pruning loop\<close>

lemma prune_inplace_inv:
  assumes "i + k = length s" "j = length (filter (\<lambda>t. ws < t) (take i s))"
    "arr = filter (\<lambda>t. ws < t) (take i s) @ drop j s"
  shows "prune_inplace ws k i j arr =
    (filter (\<lambda>t. ws < t) s @ drop (length (filter (\<lambda>t. ws < t) s)) s, length (filter (\<lambda>t. ws < t) s))"
  using assms
proof (induction k arbitrary: i j arr)
  case 0
  then show ?case by simp
next
  case (Suc k)
  let ?P = "\<lambda>t. ws < t"
  from Suc.prems have i: "i < length s" by simp
  have ji: "j \<le> i" using Suc.prems(2) i
    by (metis length_filter_le length_take min.absorb2 less_imp_le_nat)
  have arr_i: "arr ! i = s ! i"
    using Suc.prems(2,3) ji i by (simp add: nth_append)
  have tk: "take (Suc i) s = take i s @ [s ! i]" using i by (simp add: take_Suc_conv_app_nth)
  show ?case
  proof (cases "ws < s ! i")
    case True
    have dj: "drop j s = s ! j # drop (Suc j) s" using ji i by (simp add: Cons_nth_drop_Suc)
    have a: "arr[j := s ! i] = filter ?P (take (Suc i) s) @ drop (Suc j) s"
      using Suc.prems(2,3) True tk dj by (simp add: list_update_append)
    have b: "Suc j = length (filter ?P (take (Suc i) s))"
      using Suc.prems(2) True tk by simp
    have c: "Suc i + k = length s" using Suc.prems(1) by simp
    have "prune_inplace ws k (Suc i) (Suc j) (arr[j := s ! i]) =
      (filter ?P s @ drop (length (filter ?P s)) s, length (filter ?P s))"
      by (rule Suc.IH[OF c b a])
    with True arr_i show ?thesis by simp
  next
    case False
    have a: "arr = filter ?P (take (Suc i) s) @ drop j s"
      using Suc.prems(3) False tk by simp
    have b: "j = length (filter ?P (take (Suc i) s))"
      using Suc.prems(2) False tk by simp
    have c: "Suc i + k = length s" using Suc.prems(1) by simp
    have "prune_inplace ws k (Suc i) j arr =
      (filter ?P s @ drop (length (filter ?P s)) s, length (filter ?P s))"
      by (rule Suc.IH[OF c b a])
    with False arr_i show ?thesis by simp
  qed
qed

lemma prune_inplace_eq:
  "prune_inplace ws (length s) 0 0 s =
     (in_window ws s @ drop (length (in_window ws s)) s, length (in_window ws s))"
  unfolding in_window_def by (rule prune_inplace_inv) simp_all

lemma Limit_eq:
  "Limit maxCap now ip rl =
     (if whitelisted rl ip then (Next, rl)
      else if ips rl ip = None \<and> makeslice_panics maxCap (limit rl) then (MakeslicePanic, rl)
      else
        let stored = (case ips rl ip of None \<Rightarrow> [] | Some ts \<Rightarrow> ts);
            valid = in_window (Add now (- window rl)) stored
        in if int (length valid) \<ge> limit rl
           then (TooManyRequests, rl\<lparr>ips := (ips rl)(ip \<mapsto> valid @ drop (length valid) stored)\<rparr>)
           else (Next, rl\<lparr>ips := (ips rl)(ip \<mapsto> valid @ [now])\<rparr>))"
  by (simp add: Limit_def prune_inplace_eq Let_def)


text \<open>
  When every stored timestamp is kept the loop rewrites the array with itself. When the
  call rejects after dropping something, the slice left in the map has its old length
  and repeats its tail, as in this state with four stored timestamps under a limit of
  three. The histories below never reach such a state.
\<close>

lemma Limit_rejecting_overwrites_example:
  "Limit 1000 10 ''10.0.0.1''
      \<lparr>ips = [''10.0.0.1'' \<mapsto> [1, 8, 9, 10]], limit = 3, window = 5, whitelistIPs = Map.empty\<rparr>
   = (TooManyRequests,
      \<lparr>ips = [''10.0.0.1'' \<mapsto> [8, 9, 10, 10]], limit = 3, window = 5, whitelistIPs = Map.empty\<rparr>)"
  by (simp add: Limit_def whitelisted_def Let_def Add_def)

subsection \<open>The start of the window\<close>

lemma sint_neg_Duration:
  assumes "sint (w :: Duration) \<noteq> - 9223372036854775808"
  shows "sint (- w) = - sint w"
proof -
  have lo: "- (2 ^ 63) \<le> sint w" using sint_ge[of w] by simp
  have hi: "sint w < 2 ^ 63" using sint_lt[of w] by simp
  from lo assms have lo': "- (2 ^ 63) < sint w" by simp
  have "sint (- w) = signed_take_bit 63 (- sint w)"
    by (simp add: sint_word_ariths)
  also have "\<dots> = - sint w"
    by (rule signed_take_bit_int_eq_self) (use lo' hi in simp_all)
  finally show ?thesis .
qed

lemma sint_MinInt64: "sint MinInt64 = - 9223372036854775808"
  by (simp add: MinInt64_def)

lemma sint_eq_MinInt64: "sint (w :: Duration) = - 9223372036854775808 \<Longrightarrow> w = MinInt64"
  using sint_MinInt64 by (metis signed_word_eqI)

lemma Add_neg_eq:
  "Add now (- w) = (if w = MinInt64 then now - 9223372036854775808 else now - sint w)"
proof (cases "w = MinInt64")
  case True
  then show ?thesis by (simp add: Add_def MinInt64_def)
next
  case False
  then have "sint w \<noteq> - 9223372036854775808" using sint_eq_MinInt64 by blast
  then show ?thesis using False by (simp add: Add_def sint_neg_Duration)
qed

subsection \<open>Whitelisted identities\<close>

text \<open>
  Claim C4. For every identity in the whitelist, \<open>Limit\<close> passes the request on, however
  many requests the identity has made within the window, and leaves the limiter, and so
  the map of timestamps, exactly as it was: no entry is created, pruned or extended.
\<close>

theorem Limit_whitelisted_unchanged: "whitelisted rl ip \<Longrightarrow> Limit maxCap now ip rl = (Next, rl)"
  by (simp add: Limit_def)

theorem Limit_whitelisted_unchanged_witness:
  "whitelisted (AddToWhitelist ''127.0.0.1''
       \<lparr>ips = [''127.0.0.1'' \<mapsto> [1, 2, 3]], limit = 3, window = 10, whitelistIPs = Map.empty\<rparr>)
     ''127.0.0.1'' \<and>
   Limit 1000 4 ''127.0.0.1'' (AddToWhitelist ''127.0.0.1''
       \<lparr>ips = [''127.0.0.1'' \<mapsto> [1, 2, 3]], limit = 3, window = 10, whitelistIPs = Map.empty\<rparr>)
    = (Next, \<lparr>ips = [''127.0.0.1'' \<mapsto> [1, 2, 3]], limit = 3, window = 10,
         whitelistIPs = [''127.0.0.1'' \<mapsto> True]\<rparr>)"
proof -
  have w: "whitelisted (AddToWhitelist ''127.0.0.1''
       \<lparr>ips = [''127.0.0.1'' \<mapsto> [1, 2, 3]], limit = 3, window = 10, whitelistIPs = Map.empty\<rparr>)
     ''127.0.0.1''"
    by (simp add: whitelisted_def AddToWhitelist_def)
  from Limit_whitelisted_unchanged [OF w, of 1000 4] w show ?thesis by (simp add: AddToWhitelist_def)
qed

subsection \<open>The background sweep\<close>

lemma prune_entry_idem: "prune_entry ws (prune_entry ws e) = prune_entry ws e"
  by (auto simp: prune_entry_def in_window_def split: option.splits)

lemma cleanup_loop_ips:
  "ips (cleanup_loop ws order rl) ip =
     (if ip \<in> set order then prune_entry ws (ips rl ip) else ips rl ip)"
proof (induction order arbitrary: rl)
  case Nil
  then show ?case by simp
next
  case (Cons a order)
  show ?case
  proof (cases "ips rl a")
    case None
    then show ?thesis using Cons.IH[of rl] by (auto simp: prune_entry_def)
  next
    case (Some tms)
    show ?thesis
    proof (cases "in_window ws tms = []")
      case True
      then show ?thesis using Some Cons.IH[of "rl\<lparr>ips := (ips rl)(a := None)\<rparr>"]
        by (auto simp: prune_entry_def in_window_def)
    next
      case False
      then show ?thesis using Some Cons.IH[of "rl\<lparr>ips := (ips rl)(a \<mapsto> in_window ws tms)\<rparr>"]
        by (auto simp: prune_entry_def in_window_def)
    qed
  qed
qed

lemma cleanup_loop_frame:
  "limit (cleanup_loop ws order rl) = limit rl \<and> window (cleanup_loop ws order rl) = window rl \<and>
   whitelistIPs (cleanup_loop ws order rl) = whitelistIPs rl"
  by (induction order arbitrary: rl) (auto split: option.splits simp: Let_def)







subsection \<open>The admission rule\<close>

lemma Limit_rule:
  assumes "\<not> whitelisted rl a"
  shows "(fst (Limit maxCap now a rl) = Next \<longleftrightarrow>
            int (length (in_window (Add now (- window rl)) (stored rl a))) < limit rl \<and>
            \<not> (ips rl a = None \<and> maxCap < limit rl)) \<and>
         (fst (Limit maxCap now a rl) = MakeslicePanic \<longleftrightarrow>
            ips rl a = None \<and> makeslice_panics maxCap (limit rl)) \<and>
         (fst (Limit maxCap now a rl) = Next \<longrightarrow>
            ips (snd (Limit maxCap now a rl)) =
              (ips rl)(a \<mapsto> in_window (Add now (- window rl)) (stored rl a) @ [now]))"
  using assms
  by (auto simp: Limit_eq Let_def stored_def in_window_def makeslice_panics_def)

lemma scenario:
  assumes "3 \<le> maxCap"
    "t1 \<le> t2" "t2 \<le> t3" "t3 \<le> t4" "t4 - 1000000000 < t1" "t3 \<le> t5 - 1000000000"
  shows "outcomes (snd (run maxCap
            [Request t1 ip, Request t2 ip, Request t3 ip, Request t4 ip, Request t5 ip]
            (NewRateLimiter 3 1000000000, []))) = [Next, Next, Next, TooManyRequests, Next]"
  using assms
  by (simp add: Limit_eq NewRateLimiter_def whitelisted_def in_window_def outcomes_def Let_def
      Add_def makeslice_panics_def)


text \<open>
  Claim C3, as amended. With \<open>limit = 3\<close> and \<open>window = 1s\<close>, one identity that is not
  whitelisted and a runtime that can make a slice of capacity three, three calls within
  one window are admitted, a fourth within the same window is rejected, and a call made
  once all stored timestamps lie at or before \<open>now - window\<close> is admitted again. In
  general \<open>Limit\<close> counts the stored timestamps strictly after the window start
  \<open>now.Add(-window)\<close> (a timestamp equal to the window start is dropped with the older
  ones) and admits iff that count is strictly less than \<open>limit\<close>, unless the identity has
  no entry yet and \<open>make\<close> cannot serve the capacity \<open>limit\<close>: then the call panics. On
  admission it stores the counted timestamps followed by \<open>now\<close>. The window start is
  \<open>now - window\<close> for every window but the least \<^typ>\<open>Duration\<close>, whose negation is
  itself: there it lies \<open>2^63\<close> nanoseconds before \<open>now\<close>.
\<close>

theorem Limit_sliding_window:
  "(3 \<le> maxCap \<and>
    t1 \<le> t2 \<and> t2 \<le> t3 \<and> t3 \<le> t4 \<and> t4 - 1000000000 < t1 \<and> t3 \<le> t5 - 1000000000 \<longrightarrow>
      outcomes (snd (run maxCap
            [Request t1 ip, Request t2 ip, Request t3 ip, Request t4 ip, Request t5 ip]
            (NewRateLimiter 3 1000000000, []))) = [Next, Next, Next, TooManyRequests, Next]) \<and>
   (\<not> whitelisted rl a \<longrightarrow>
      (fst (Limit maxCap now a rl) = Next \<longleftrightarrow>
            int (length (in_window (Add now (- window rl)) (stored rl a))) < limit rl \<and>
            \<not> (ips rl a = None \<and> maxCap < limit rl)) \<and>
      (fst (Limit maxCap now a rl) = MakeslicePanic \<longleftrightarrow>
            ips rl a = None \<and> makeslice_panics maxCap (limit rl)) \<and>
      (fst (Limit maxCap now a rl) = Next \<longrightarrow>
            ips (snd (Limit maxCap now a rl)) =
              (ips rl)(a \<mapsto> in_window (Add now (- window rl)) (stored rl a) @ [now]))) \<and>
   Add now (- window rl) =
     (if window rl = MinInt64 then now - 9223372036854775808 else now - sint (window rl))"
  using scenario[of maxCap t1 t2 t3 t4 t5 ip] Limit_rule[of rl a maxCap now]
    Add_neg_eq[of now "window rl"]
  by blast

theorem Limit_sliding_window_witness:
  "outcomes (snd (run 1000 [Request 0 ''10.0.0.1'', Request 1 ''10.0.0.1'', Request 2 ''10.0.0.1'',
       Request 999999999 ''10.0.0.1'', Request 1000000002 ''10.0.0.1'']
            (NewRateLimiter 3 1000000000, []))) = [Next, Next, Next, TooManyRequests, Next] \<and>
   \<not> whitelisted (NewRateLimiter 1 1000000000) ''10.0.0.1'' \<and>
   fst (Limit 1000 5 ''10.0.0.1'' (NewRateLimiter 1 1000000000)) = Next \<and>
   ips (snd (Limit 1000 5 ''10.0.0.1'' (NewRateLimiter 1 1000000000))) = [''10.0.0.1'' \<mapsto> [5]] \<and>
   Add 5 (- window (NewRateLimiter 1 1000000000)) = - 999999995"
proof -
  have w: "\<not> whitelisted (NewRateLimiter 1 1000000000) ''10.0.0.1''"
    by (simp add: whitelisted_def NewRateLimiter_def)
  have s: "stored (NewRateLimiter 1 1000000000) ''10.0.0.1'' = []"
    by (simp add: stored_def NewRateLimiter_def)
  have l: "limit (NewRateLimiter 1 1000000000) = 1" "ips (NewRateLimiter 1 1000000000) = Map.empty"
    "window (NewRateLimiter 1 1000000000) = 1000000000"
    by (simp_all add: NewRateLimiter_def)
  have m: "(1000000000 :: Duration) \<noteq> MinInt64" by (simp add: MinInt64_def)
  note c = Limit_sliding_window [of 1000 0 1 2 999999999 1000000002 "''10.0.0.1''"
      "NewRateLimiter 1 1000000000" "''10.0.0.1''" 5]
  from c w m show ?thesis by (simp add: s l in_window_def)
qed


text \<open>
  The claim as worded drops only the timestamps older than \<open>now - window\<close>. A request
  made exactly one window after the only stored timestamp is admitted by \<open>Limit\<close> under
  a limit of one, while the worded rule retains that timestamp and rejects.
\<close>

theorem Limit_boundary_counterexample:
  "outcomes (snd (run 1000 [Request 0 ''10.0.0.1'', Request 1000000000 ''10.0.0.1'']
       (NewRateLimiter 1 1000000000, []))) = [Next, Next] \<and>
   fst (Admit_spec 1000000000 1 1000000000 [0]) = False"
  by (simp add: Limit_eq NewRateLimiter_def whitelisted_def in_window_def outcomes_def Let_def
      Admit_spec_def Add_def makeslice_panics_def)

subsection \<open>Stored timestamps and admitted requests\<close>

lemma admitted_append:
  "admitted ip (log @ [(ip', now, out)]) =
     (if ip' = ip \<and> out = Next then admitted ip log @ [now] else admitted ip log)"
  by (simp add: admitted_def)

lemma mset_admitted_mono: "mset (admitted ip log) \<subseteq># mset (admitted ip (log @ [e]))"
  by (cases e) (simp add: admitted_append)

lemma in_window_full: "length (in_window ws ts) = length ts \<Longrightarrow> in_window ws ts = ts"
  unfolding in_window_def by (metis filter_True length_filter_less linorder_neq_iff filter_id_conv)

lemma mset_in_window: "mset (in_window ws ts) \<subseteq># mset ts"
  by (simp add: in_window_def)

lemma Limit_frame:
  "limit (snd (Limit maxCap now ip rl)) = limit rl \<and> window (snd (Limit maxCap now ip rl)) = window rl \<and>
   whitelistIPs (snd (Limit maxCap now ip rl)) = whitelistIPs rl"
  by (simp add: Limit_eq Let_def)

lemma Limit_rejected_inv:
  assumes "limiter_inv rl log" "Limit maxCap now ip rl = (TooManyRequests, rl')"
  shows "ips rl' = (ips rl)(ip \<mapsto> in_window (Add now (- window rl)) (stored rl ip)) \<and>
         in_window (Add now (- window rl)) (stored rl ip) = stored rl ip"
proof -
  let ?s = "stored rl ip" and ?v = "in_window (Add now (- window rl)) (stored rl ip)"
  from assms(2) have nw: "\<not> whitelisted rl ip" and np: "\<not> (ips rl ip = None \<and> makeslice_panics maxCap (limit rl))"
    and full: "limit rl \<le> int (length ?v)"
    and rl': "rl' = rl\<lparr>ips := (ips rl)(ip \<mapsto> ?v @ drop (length ?v) ?s)\<rparr>"
    by (auto simp: Limit_eq Let_def stored_def split: if_splits)
  have "int (length ?s) \<le> limit rl"
  proof (cases "ips rl ip")
    case None
    then show ?thesis using np by (simp add: stored_def makeslice_panics_def)
  next
    case (Some ts)
    then show ?thesis using assms(1) by (simp add: stored_def limiter_inv_def)
  qed
  moreover have "length ?v \<le> length ?s" by (simp add: in_window_def)
  ultimately have "length ?v = length ?s" using full by simp
  then have "?v = ?s" by (rule in_window_full)
  then show ?thesis using rl' by simp
qed

lemma Limit_inv:
  assumes "limiter_inv rl log" "Limit maxCap now ip rl = (out, rl')"
  shows "limiter_inv rl' (log @ [(ip, now, out)])"
proof -
  let ?log' = "log @ [(ip, now, out)]"
  have mono: "\<And>i ts. mset ts \<subseteq># mset (admitted i log) \<Longrightarrow> mset ts \<subseteq># mset (admitted i ?log')"
    using mset_admitted_mono subset_mset.order_trans by blast
  have lim: "limit rl' = limit rl" using Limit_frame[of maxCap now ip rl] assms(2) by simp
  have keep: "limiter_inv rl ?log'"
    using assms(1) mono unfolding limiter_inv_def by blast
  consider (same) "rl' = rl"
    | (rej) "out = TooManyRequests"
    | (adm) "out = Next" "\<not> whitelisted rl ip"
    using assms(2) by (auto simp: Limit_eq Let_def split: if_splits)
  then show ?thesis
  proof cases
    case same
    then show ?thesis using keep by simp
  next
    case rej
    with assms have ips': "ips rl' = (ips rl)(ip \<mapsto> stored rl ip)"
      using Limit_rejected_inv by metis
    from assms(2) rej have np: "\<not> (ips rl ip = None \<and> makeslice_panics maxCap (limit rl))"
      by (auto simp: Limit_eq Let_def split: if_splits)
    show ?thesis
      unfolding limiter_inv_def
    proof (intro allI impI)
      fix i ts assume e: "ips rl' i = Some ts"
      show "int (length ts) \<le> limit rl' \<and> mset ts \<subseteq># mset (admitted i ?log')"
      proof (cases "i = ip")
        case True
        with e ips' have ts: "ts = stored rl ip" by simp
        show ?thesis
        proof (cases "ips rl ip")
          case None
          then show ?thesis using ts np lim by (simp add: stored_def makeslice_panics_def)
        next
          case (Some us)
          then have "ts = us" using ts by (simp add: stored_def)
          then show ?thesis using Some keep lim True unfolding limiter_inv_def by auto
        qed
      next
        case False
        with e ips' have "ips rl i = Some ts" by simp
        then show ?thesis using keep lim unfolding limiter_inv_def by auto
      qed
    qed
  next
    case adm
    let ?v = "in_window (Add now (- window rl)) (stored rl ip)"
    from assms(2) adm have lt: "int (length ?v) < limit rl"
      and ips': "ips rl' = (ips rl)(ip \<mapsto> ?v @ [now])"
      by (auto simp: Limit_eq Let_def stored_def split: if_splits)
    have sub: "mset (stored rl ip) \<subseteq># mset (admitted ip log)"
      using assms(1) by (cases "ips rl ip") (auto simp: stored_def limiter_inv_def)
    have "mset ?v \<subseteq># mset (admitted ip log)"
      using mset_in_window sub subset_mset.order_trans by blast
    then have new: "mset (?v @ [now]) \<subseteq># mset (admitted ip ?log')"
      using adm(1) by (simp add: admitted_append)
    show ?thesis
      unfolding limiter_inv_def
    proof (intro allI impI)
      fix i ts assume e: "ips rl' i = Some ts"
      show "int (length ts) \<le> limit rl' \<and> mset ts \<subseteq># mset (admitted i ?log')"
      proof (cases "i = ip")
        case True
        with e ips' have "ts = ?v @ [now]" by simp
        then show ?thesis using lt new lim True by simp
      next
        case False
        with e ips' have "ips rl i = Some ts" by simp
        then show ?thesis using keep lim unfolding limiter_inv_def by auto
      qed
    qed
  qed
qed

lemma cleanup_inv:
  assumes "limiter_inv rl log"
  shows "limiter_inv (cleanup now order rl) log"
  unfolding limiter_inv_def
proof (intro allI impI)
  fix ip ts assume e: "ips (cleanup now order rl) ip = Some ts"
  have lim: "limit (cleanup now order rl) = limit rl"
    by (simp add: cleanup_def cleanup_loop_frame)
  from e obtain us where us: "ips rl ip = Some us"
    and ts: "ts = us \<or> ts = in_window (Add now (- window rl)) us"
    by (cases "ips rl ip")
       (auto simp: cleanup_def cleanup_loop_ips prune_entry_def split: if_splits)
  from us assms have u: "int (length us) \<le> limit rl" "mset us \<subseteq># mset (admitted ip log)"
    by (auto simp: limiter_inv_def)
  have "length ts \<le> length us" using ts by (auto simp: in_window_def)
  moreover have "mset ts \<subseteq># mset us" using ts mset_in_window by auto
  ultimately show "int (length ts) \<le> limit (cleanup now order rl) \<and> mset ts \<subseteq># mset (admitted ip log)"
    using u lim subset_mset.order_trans by fastforce
qed

lemma whitelist_inv:
  "limiter_inv rl log \<Longrightarrow> limiter_inv (AddToWhitelist ip rl) log"
  "limiter_inv rl log \<Longrightarrow> limiter_inv (RemoveFromWhitelist ip rl) log"
  by (simp_all add: limiter_inv_def AddToWhitelist_def RemoveFromWhitelist_def)

lemma run_inv:
  "limiter_inv (fst st) (snd st) \<Longrightarrow> limiter_inv (fst (run maxCap es st)) (snd (run maxCap es st))"
proof (induction es arbitrary: st)
  case Nil
  then show ?case by simp
next
  case (Cons e es)
  obtain rl log where st: "st = (rl, log)" by (cases st)
  with Cons.prems have inv: "limiter_inv rl log" by simp
  show ?case
  proof (cases e)
    case (Request now ip)
    obtain out rl' where L: "Limit maxCap now ip rl = (out, rl')" by (cases "Limit maxCap now ip rl")
    with inv have i: "limiter_inv rl' (log @ [(ip, now, out)])"
      by (rule Limit_inv)
    show ?thesis
    proof (cases "out = MakeslicePanic")
      case True
      with L i st Request show ?thesis by simp
    next
      case False
      then have "run maxCap (e # es) st = run maxCap es (rl', log @ [(ip, now, out)])"
        using L st Request by (cases out) simp_all
      with Cons.IH[of "(rl', log @ [(ip, now, out)])"] i show ?thesis by simp
    qed
  next
    case (Sweep now order)
    with Cons.IH[of "(cleanup now order rl, log)"] cleanup_inv[OF inv] st show ?thesis by simp
  next
    case (Allow ip)
    with Cons.IH[of "(AddToWhitelist ip rl, log)"] whitelist_inv(1)[OF inv] st show ?thesis by simp
  next
    case (Disallow ip)
    with Cons.IH[of "(RemoveFromWhitelist ip rl, log)"] whitelist_inv(2)[OF inv] st show ?thesis by simp
  qed
qed

lemma NewRateLimiter_inv: "limiter_inv (NewRateLimiter lim win) []"
  by (simp add: limiter_inv_def NewRateLimiter_def)

lemma length_in_window_mono:
  assumes "mset ts \<subseteq># mset us"
  shows "length (in_window ws ts) \<le> length (in_window ws us)"
proof -
  have "filter_mset (\<lambda>t. ws < t) (mset ts) \<subseteq># filter_mset (\<lambda>t. ws < t) (mset us)"
    using assms by (rule multiset_filter_mono)
  then have "size (mset (in_window ws ts)) \<le> size (mset (in_window ws us))"
    unfolding in_window_def mset_filter by (rule size_mset_mono)
  then show ?thesis by simp
qed


text \<open>
  Claim C2. After every history of requests, sweeps and whitelist changes on a new
  limiter, and for every identity and every window start, the stored slice holds no
  more timestamps inside the window than requests of that identity were admitted inside
  it. In particular a rejected call stores exactly the in-window timestamps that were
  stored before it, which are all of them: nothing is duplicated or added.
\<close>

theorem stored_within_admitted:
  assumes "run maxCap es (NewRateLimiter lim win, []) = (rl, log)"
  shows "(\<forall>ip ts windowStart. ips rl ip = Some ts \<longrightarrow>
            length (in_window windowStart ts) \<le> length (in_window windowStart (admitted ip log))) \<and>
         (\<forall>now ip rl'. Limit maxCap now ip rl = (TooManyRequests, rl') \<longrightarrow>
            ips rl' = (ips rl)(ip \<mapsto> in_window (Add now (- window rl)) (stored rl ip)) \<and>
            in_window (Add now (- window rl)) (stored rl ip) = stored rl ip)"
proof -
  have inv: "limiter_inv rl log"
    using run_inv[of "(NewRateLimiter lim win, [])" maxCap es] assms NewRateLimiter_inv by simp
  show ?thesis
  proof (intro conjI allI impI)
    fix ip ts windowStart assume "ips rl ip = Some ts"
    with inv have "mset ts \<subseteq># mset (admitted ip log)" by (simp add: limiter_inv_def)
    then show "length (in_window windowStart ts) \<le> length (in_window windowStart (admitted ip log))"
      by (rule length_in_window_mono)
  next
    fix now ip rl' assume L: "Limit maxCap now ip rl = (TooManyRequests, rl')"
    from Limit_rejected_inv[OF inv L]
    show "ips rl' = (ips rl)(ip \<mapsto> in_window (Add now (- window rl)) (stored rl ip))"
      and "in_window (Add now (- window rl)) (stored rl ip) = stored rl ip" by simp_all
  qed
qed

theorem stored_within_admitted_witness:
  "run 1000 [Request 0 ''10.0.0.1'', Sweep 5 [''10.0.0.1''], Request 1 ''10.0.0.1'', Request 2 ''10.0.0.1'']
       (NewRateLimiter 3 10, [])
     = (\<lparr>ips = [''10.0.0.1'' \<mapsto> [0, 1, 2]], limit = 3, window = 10, whitelistIPs = Map.empty\<rparr>,
        [(''10.0.0.1'', 0, Next), (''10.0.0.1'', 1, Next), (''10.0.0.1'', 2, Next)]) \<and>
   length (in_window 0 [0, 1, 2]) \<le> length (in_window 0 (admitted ''10.0.0.1''
        [(''10.0.0.1'', 0, Next), (''10.0.0.1'', 1, Next), (''10.0.0.1'', 2, Next)])) \<and>
   Limit 1000 3 ''10.0.0.1''
       \<lparr>ips = [''10.0.0.1'' \<mapsto> [0, 1, 2]], limit = 3, window = 10, whitelistIPs = Map.empty\<rparr>
     = (TooManyRequests,
        \<lparr>ips = [''10.0.0.1'' \<mapsto> [0, 1, 2]], limit = 3, window = 10, whitelistIPs = Map.empty\<rparr>) \<and>
   in_window (Add 3 (- 10)) [0, 1, 2] = [0, 1, 2]"
proof -
  let ?rl = "\<lparr>ips = [''10.0.0.1'' \<mapsto> [0, 1, 2::int]], limit = 3, window = 10,
      whitelistIPs = Map.empty\<rparr>"
  have r: "run 1000 [Request 0 ''10.0.0.1'', Sweep 5 [''10.0.0.1''], Request 1 ''10.0.0.1'',
        Request 2 ''10.0.0.1''] (NewRateLimiter 3 10, [])
     = (?rl, [(''10.0.0.1'', 0, Next), (''10.0.0.1'', 1, Next), (''10.0.0.1'', 2, Next)])"
    by (simp add: Limit_def NewRateLimiter_def whitelisted_def Let_def cleanup_def Add_def
        makeslice_panics_def)
  have l: "Limit 1000 3 ''10.0.0.1'' ?rl = (TooManyRequests, ?rl)"
    by (simp add: Limit_def whitelisted_def Let_def Add_def)
  have s: "stored ?rl ''10.0.0.1'' = [0, 1, 2]" by (simp add: stored_def)
  note c = stored_within_admitted [OF r]
  from c l have "in_window (Add 3 (- window ?rl)) (stored ?rl ''10.0.0.1'') = stored ?rl ''10.0.0.1''"
    by blast
  moreover from c have "length (in_window 0 [0, 1, 2]) \<le> length (in_window 0 (admitted ''10.0.0.1''
        [(''10.0.0.1'', 0, Next), (''10.0.0.1'', 1, Next), (''10.0.0.1'', 2, Next)]))"
    by simp
  ultimately show ?thesis using r l s by simp
qed

section \<open>Properties of the aggregation\<close>

subsection \<open>The invariant is kept\<close>

lemma init_inv: "wait_inv res init_state"
  by (simp add: wait_inv_def init_state_def block_received_def gas_inv_def block_inv_def
      balance_inv_def received_def)

lemma finish_simps:
  "errCh (finish res u s) = errCh s \<or> (\<exists>e. errCh (finish res u s) = errCh s @ [e] \<and> upstream_failure res e)"
  "finished (finish res u s) = finished s"
  "gasPrice (finish res u s) = gasPrice s"
  "balance (finish res u s) = balance s"
  "blockNumber (finish res u s) = blockNumber s"
  "loop_i (finish res u s) = loop_i s"
  "ctxErr (finish res u s) = ctxErr s"
  by (cases u; auto simp: upstream_failure_def split: sum.splits)+

lemmas inv_defs = wait_inv_def gas_inv_def block_inv_def balance_inv_def received_def
  block_received_def

lemma finish_gas_inv:
  assumes "wait_inv res s" "GasPriceCall \<notin> finished s"
  shows "wait_inv res (finish res GasPriceCall (s\<lparr>finished := insert GasPriceCall (finished s)\<rparr>))"
proof (cases "GetGasPrice res")
  case (Inl err)
  then have "upstream_failure res (Errorf ''failed to get gas price: '' err)"
    by (simp add: upstream_failure_def)
  with assms Inl show ?thesis
    by (simp add: inv_defs split: sum.splits)
next
  case (Inr v)
  with assms show ?thesis
    by (simp add: inv_defs split: sum.splits)
qed

lemma finish_block_inv:
  assumes "wait_inv res s" "BlockNumberCall \<notin> finished s"
  shows "wait_inv res (finish res BlockNumberCall (s\<lparr>finished := insert BlockNumberCall (finished s)\<rparr>))"
proof (cases "GetCurrentBlock res")
  case (Inl err)
  then have "upstream_failure res (Errorf ''failed to get block number: '' err)"
    by (simp add: upstream_failure_def)
  with assms Inl show ?thesis
    by (simp add: inv_defs split: sum.splits)
next
  case (Inr v)
  with assms show ?thesis
    by (simp add: inv_defs split: sum.splits)
qed

lemma finish_balance_inv:
  assumes "wait_inv res s" "BalanceCall \<notin> finished s"
  shows "wait_inv res (finish res BalanceCall (s\<lparr>finished := insert BalanceCall (finished s)\<rparr>))"
proof (cases "GetAddressBalance res")
  case (Inl err)
  then have "upstream_failure res (Errorf ''failed to get balance: '' err)"
    by (simp add: upstream_failure_def)
  with assms Inl show ?thesis
    by (simp add: inv_defs split: sum.splits)
next
  case (Inr v)
  with assms show ?thesis
    by (simp add: inv_defs split: sum.splits)
qed

lemma finish_inv:
  assumes "wait_inv res s" "u \<notin> finished s"
  shows "wait_inv res (finish res u (s\<lparr>finished := insert u (finished s)\<rparr>))"
  using assms finish_gas_inv finish_block_inv finish_balance_inv by (cases u) blast+

lemma select_gas_inv:
  assumes "wait_inv res s" "gasPriceCh s = Some v"
  shows "wait_inv res (s\<lparr>gasPriceCh := None, gasPrice := Some v, loop_i := Suc (loop_i s)\<rparr>)"
  using assms by (simp add: inv_defs split: sum.splits if_splits)

lemma select_block_inv:
  assumes "wait_inv res s" "blockNumberCh s = Some v"
  shows "wait_inv res (s\<lparr>blockNumberCh := None, blockNumber := v, loop_i := Suc (loop_i s)\<rparr>)"
  using assms by (simp add: inv_defs split: sum.splits if_splits)

lemma select_balance_inv:
  assumes "wait_inv res s" "balanceCh s = Some v"
  shows "wait_inv res (s\<lparr>balanceCh := None, balance := Some v, loop_i := Suc (loop_i s)\<rparr>)"
  using assms by (simp add: inv_defs split: sum.splits if_splits)

lemma cancel_inv: "wait_inv res s \<Longrightarrow> wait_inv res (s\<lparr>ctxErr := c\<rparr>)"
  by (simp add: inv_defs split: sum.splits)

lemma on_event_inv:
  assumes "wait_inv res s" "on_event res ev s = Inr s'"
  shows "wait_inv res s'"
proof (cases ev)
  case (Finish u)
  with assms finish_inv show ?thesis by (auto split: if_splits)
next
  case (Cancel e)
  with assms cancel_inv show ?thesis by (auto split: option.splits)
next
  case (Select c)
  with assms select_gas_inv select_block_inv select_balance_inv show ?thesis
    by (cases c) (auto split: option.splits list.splits)
qed

lemma on_event_error:
  assumes "wait_inv res s" "on_event res ev s = Inl e"
  shows "upstream_failure res e \<or> context_failure e"
proof (cases ev)
  case (Finish u)
  with assms show ?thesis by (auto split: if_splits)
next
  case (Cancel c)
  with assms show ?thesis by (auto split: option.splits)
next
  case (Select c)
  with assms show ?thesis
    by (cases c) (auto simp: wait_inv_def context_failure_def split: option.splits list.splits)
qed

lemma wait_safe:
  assumes "wait_inv res s"
  shows "(case wait res s evs of
            Completed s' \<Rightarrow> wait_inv res s' \<and> \<not> loop_i s' < 3
          | Failed e \<Rightarrow> upstream_failure res e \<or> context_failure e
          | Blocked \<Rightarrow> True)"
  using assms
proof (induction evs arbitrary: s)
  case Nil
  then show ?case by simp
next
  case (Cons ev evs)
  show ?case
  proof (cases "loop_i s < 3")
    case False
    with Cons.prems show ?thesis by simp
  next
    case True
    show ?thesis
    proof (cases "on_event res ev s")
      case (Inl e)
      with True on_event_error[OF Cons.prems Inl] show ?thesis by simp
    next
      case (Inr s')
      with True Cons.IH[OF on_event_inv[OF Cons.prems Inr]] show ?thesis by simp
    qed
  qed
qed

lemma completed_populated:
  assumes "wait_inv res s" "\<not> loop_i s < 3"
  shows "\<exists>g n b. GetGasPrice res = Inr g \<and> GetCurrentBlock res = Inr n \<and> GetAddressBalance res = Inr b \<and>
           gasPrice s = Some g \<and> blockNumber s = n \<and> balance s = Some b"
proof -
  from assms have r: "gasPrice s \<noteq> None" "block_received res s" "balance s \<noteq> None"
    by (auto simp: wait_inv_def received_def split: if_splits)
  from assms(1) r show ?thesis
    by (auto simp: wait_inv_def gas_inv_def block_inv_def balance_inv_def split: if_splits sum.splits)
qed

subsection \<open>The loop does not wait for ever\<close>

lemma on_event_mono:
  assumes "on_event res ev s = Inr s'"
  shows "finished s \<subseteq> finished s'"
    and "gasPrice s \<noteq> None \<longrightarrow> gasPrice s' \<noteq> None"
    and "balance s \<noteq> None \<longrightarrow> balance s' \<noteq> None"
    and "block_received res s \<longrightarrow> block_received res s'"
    and "errCh s \<noteq> [] \<longrightarrow> errCh s' \<noteq> []"
proof -
  show "finished s \<subseteq> finished s'"
    using assms
    by (cases ev; cases "case ev of Finish u \<Rightarrow> u | _ \<Rightarrow> GasPriceCall";
        cases "case ev of Select c \<Rightarrow> c | _ \<Rightarrow> CaseErrCh")
       (auto split: if_splits option.splits list.splits sum.splits)
  show "gasPrice s \<noteq> None \<longrightarrow> gasPrice s' \<noteq> None"
    using assms
    by (cases ev; cases "case ev of Finish u \<Rightarrow> u | _ \<Rightarrow> GasPriceCall";
        cases "case ev of Select c \<Rightarrow> c | _ \<Rightarrow> CaseErrCh")
       (auto split: if_splits option.splits list.splits sum.splits)
  show "balance s \<noteq> None \<longrightarrow> balance s' \<noteq> None"
    using assms
    by (cases ev; cases "case ev of Finish u \<Rightarrow> u | _ \<Rightarrow> GasPriceCall";
        cases "case ev of Select c \<Rightarrow> c | _ \<Rightarrow> CaseErrCh")
       (auto split: if_splits option.splits list.splits sum.splits)
  show "block_received res s \<longrightarrow> block_received res s'"
    using assms
    by (cases ev; cases "case ev of Finish u \<Rightarrow> u | _ \<Rightarrow> GasPriceCall";
        cases "case ev of Select c \<Rightarrow> c | _ \<Rightarrow> CaseErrCh")
       (auto simp: block_received_def split: if_splits option.splits list.splits sum.splits)
  show "errCh s \<noteq> [] \<longrightarrow> errCh s' \<noteq> []"
    using assms
    by (cases ev; cases "case ev of Finish u \<Rightarrow> u | _ \<Rightarrow> GasPriceCall";
        cases "case ev of Select c \<Rightarrow> c | _ \<Rightarrow> CaseErrCh")
       (auto split: if_splits option.splits list.splits sum.splits)
qed

lemma on_event_Finish:
  "\<exists>s'. on_event res (Finish u) s = Inr s' \<and> u \<in> finished s'"
  by (cases u; cases "GetGasPrice res"; cases "GetCurrentBlock res"; cases "GetAddressBalance res")
     auto

lemma select_gas_receives:
  assumes "wait_inv res s" "GasPriceCall \<in> finished s" "errCh s = []"
    "on_event res (Select CaseGasPriceCh) s = Inr s'"
  shows "gasPrice s' \<noteq> None"
  using assms by (auto simp: wait_inv_def gas_inv_def split: sum.splits option.splits)

lemma select_balance_receives:
  assumes "wait_inv res s" "BalanceCall \<in> finished s" "errCh s = []"
    "on_event res (Select CaseBalanceCh) s = Inr s'"
  shows "balance s' \<noteq> None"
  using assms by (auto simp: wait_inv_def balance_inv_def split: sum.splits option.splits)

lemma select_block_receives:
  assumes "wait_inv res s" "BlockNumberCall \<in> finished s" "errCh s = []"
    "on_event res (Select CaseBlockNumberCh) s = Inr s'"
  shows "block_received res s'"
  using assms
  by (auto simp: wait_inv_def block_inv_def block_received_def split: sum.splits option.splits)

lemma select_err_fails: "errCh s \<noteq> [] \<Longrightarrow> \<exists>e. on_event res (Select CaseErrCh) s = Inl e"
  by (cases "errCh s") auto

lemma errCh_select: "on_event res (Select c) s = Inr s' \<Longrightarrow> errCh s' = errCh s"
  by (cases c) (auto split: option.splits list.splits)

lemma wait_step:
  assumes "wait_inv res s"
    and "\<And>s'. on_event res ev s = Inr s' \<Longrightarrow> wait_inv res s' \<Longrightarrow> wait res s' evs \<noteq> Blocked"
  shows "wait res s (ev # evs) \<noteq> Blocked"
proof (cases "loop_i s < 3")
  case False
  then show ?thesis by simp
next
  case True
  show ?thesis
  proof (cases "on_event res ev s")
    case (Inl e)
    with True show ?thesis by simp
  next
    case (Inr s')
    with True assms(2)[OF Inr on_event_inv[OF assms(1) Inr]] show ?thesis by simp
  qed
qed

lemma wait_drain:
  assumes inv: "wait_inv res s"
  shows "wait res s drain \<noteq> Blocked"
  unfolding drain_def
proof (rule wait_step[OF inv])
  fix s1 assume e1: "on_event res (Finish GasPriceCall) s = Inr s1" and i1: "wait_inv res s1"
  from e1 on_event_Finish[of res GasPriceCall s] have f1: "GasPriceCall \<in> finished s1" by auto
  show "wait res s1 [Finish BlockNumberCall, Finish BalanceCall, Select CaseErrCh,
      Select CaseGasPriceCh, Select CaseBlockNumberCh, Select CaseBalanceCh] \<noteq> Blocked"
  proof (rule wait_step[OF i1])
    fix s2 assume e2: "on_event res (Finish BlockNumberCall) s1 = Inr s2" and i2: "wait_inv res s2"
    from e2 on_event_Finish[of res BlockNumberCall s1] on_event_mono(1)[OF e2] f1
    have f2: "GasPriceCall \<in> finished s2" "BlockNumberCall \<in> finished s2" by auto
    show "wait res s2 [Finish BalanceCall, Select CaseErrCh,
        Select CaseGasPriceCh, Select CaseBlockNumberCh, Select CaseBalanceCh] \<noteq> Blocked"
    proof (rule wait_step[OF i2])
      fix s3 assume e3: "on_event res (Finish BalanceCall) s2 = Inr s3" and i3: "wait_inv res s3"
      from e3 on_event_Finish[of res BalanceCall s2] on_event_mono(1)[OF e3] f2
      have f3: "GasPriceCall \<in> finished s3" "BlockNumberCall \<in> finished s3"
        "BalanceCall \<in> finished s3" by auto
      show "wait res s3 [Select CaseErrCh,
          Select CaseGasPriceCh, Select CaseBlockNumberCh, Select CaseBalanceCh] \<noteq> Blocked"
      proof (rule wait_step[OF i3])
        fix s4 assume e4: "on_event res (Select CaseErrCh) s3 = Inr s4" and i4: "wait_inv res s4"
        from e4 select_err_fails[of s3 res] have n3: "errCh s3 = []" by auto
        with errCh_select[OF e4] have n4: "errCh s4 = []" by simp
        from on_event_mono(1)[OF e4] f3
        have f4: "GasPriceCall \<in> finished s4" "BlockNumberCall \<in> finished s4"
          "BalanceCall \<in> finished s4" by auto
        show "wait res s4 [Select CaseGasPriceCh, Select CaseBlockNumberCh, Select CaseBalanceCh]
            \<noteq> Blocked"
        proof (rule wait_step[OF i4])
          fix s5 assume e5: "on_event res (Select CaseGasPriceCh) s4 = Inr s5"
            and i5: "wait_inv res s5"
          have g5: "gasPrice s5 \<noteq> None" by (rule select_gas_receives[OF i4 f4(1) n4 e5])
          from errCh_select[OF e5] n4 have n5: "errCh s5 = []" by simp
          from on_event_mono(1)[OF e5] f4
          have f5: "BlockNumberCall \<in> finished s5" "BalanceCall \<in> finished s5" by auto
          show "wait res s5 [Select CaseBlockNumberCh, Select CaseBalanceCh] \<noteq> Blocked"
          proof (rule wait_step[OF i5])
            fix s6 assume e6: "on_event res (Select CaseBlockNumberCh) s5 = Inr s6"
              and i6: "wait_inv res s6"
            have b6: "block_received res s6" by (rule select_block_receives[OF i5 f5(1) n5 e6])
            from on_event_mono(2)[OF e6] g5 have g6: "gasPrice s6 \<noteq> None" by simp
            from errCh_select[OF e6] n5 have n6: "errCh s6 = []" by simp
            from on_event_mono(1)[OF e6] f5 have f6: "BalanceCall \<in> finished s6" by auto
            show "wait res s6 [Select CaseBalanceCh] \<noteq> Blocked"
            proof (rule wait_step[OF i6])
              fix s7 assume e7: "on_event res (Select CaseBalanceCh) s6 = Inr s7"
                and i7: "wait_inv res s7"
              have "balance s7 \<noteq> None" by (rule select_balance_receives[OF i6 f6 n6 e7])
              moreover from on_event_mono(2)[OF e7] g6 have "gasPrice s7 \<noteq> None" by simp
              moreover from on_event_mono(4)[OF e7] b6 have "block_received res s7" by simp
              ultimately have "received res s7 = 3" by (simp add: received_def)
              with i7 have "loop_i s7 = 3" by (simp add: wait_inv_def)
              then show "wait res s7 [] \<noteq> Blocked" by simp
            qed
          qed
        qed
      qed
    qed
  qed
qed

lemma wait_append_drain:
  assumes "wait_inv res s"
  shows "wait res s (evs @ drain) \<noteq> Blocked"
  using assms
proof (induction evs arbitrary: s)
  case Nil
  then show ?case using wait_drain by simp
next
  case (Cons ev evs)
  show ?case
    unfolding append_Cons
  proof (rule wait_step[OF Cons.prems])
    fix s' assume "on_event res ev s = Inr s'" "wait_inv res s'"
    then show "wait res s' (evs @ drain) \<noteq> Blocked" using Cons.IH by simp
  qed
qed

subsection \<open>All three values or one error\<close>

lemma GetAddressInfo_cases:
  "(\<exists>e. GetAddressInfo q now res evs address = Returns (None, Some e) \<and>
         (upstream_failure res e \<or> context_failure e)) \<or>
   (\<exists>g n b. GetGasPrice res = Inr g \<and> GetCurrentBlock res = Inr n \<and> GetAddressBalance res = Inr b \<and>
      GetAddressInfo q now res evs address =
        Returns (Some \<lparr>AddressInfo.Address = address,
                        AddressInfo.GasPrice = \<lparr>GasPrice.Wei = Some g, GasPrice.Gwei = q g (10 ^ 9)\<rparr>,
                        AddressInfo.CurrentBlock = n,
                        AddressInfo.Balance = \<lparr>Balance.Wei = Some b, Balance.Ether = q b (10 ^ 18)\<rparr>,
                        AddressInfo.Timestamp = now\<rparr>, None)) \<or>
   GetAddressInfo q now res evs address = Blocks"
proof (cases "wait res init_state evs")
  case (Completed s)
  with wait_safe[OF init_inv, of res evs] have "wait_inv res s" "\<not> loop_i s < 3" by simp_all
  from completed_populated[OF this] Completed show ?thesis
    by (auto simp: GetAddressInfo_def)
next
  case (Failed e)
  with wait_safe[OF init_inv, of res evs] show ?thesis
    by (simp add: GetAddressInfo_def)
next
  case Blocked
  then show ?thesis by (simp add: GetAddressInfo_def)
qed

lemma GetAddressInfo_returns:
  "GetAddressInfo q now res (evs @ drain) address \<noteq> Blocks"
  using wait_append_drain[OF init_inv, of res evs]
  by (auto simp: GetAddressInfo_def split: wait_result.splits option.splits)


text \<open>
  Claim C1, as amended. For every address, every outcome of the three upstream calls and
  every schedule, \<open>GetAddressInfo\<close> never panics, and when it returns it returns either
  a nil error and an \<open>AddressInfo\<close> whose three subfields are the three upstream values,
  or a nil pointer and one error, which is the error of one failed upstream call behind
  a prefix that names the call, or the error of the context behind the prefix
  \<open>context cancelled\<close>. It never returns a partial result, nor a value together
  with an error. It returns as soon as the three goroutines have finished and the \<open>select\<close>
  has taken what they sent.
\<close>

theorem GetAddressInfo_all_or_error:
  "(\<forall>info err. GetAddressInfo q now res evs address = Returns (info, err) \<longrightarrow>
      (err = None \<and>
       (\<exists>g n b. GetGasPrice res = Inr g \<and> GetCurrentBlock res = Inr n \<and>
          GetAddressBalance res = Inr b \<and>
          info = Some \<lparr>AddressInfo.Address = address,
                        AddressInfo.GasPrice = \<lparr>GasPrice.Wei = Some g, GasPrice.Gwei = q g (10 ^ 9)\<rparr>,
                        AddressInfo.CurrentBlock = n,
                        AddressInfo.Balance = \<lparr>Balance.Wei = Some b, Balance.Ether = q b (10 ^ 18)\<rparr>,
                        AddressInfo.Timestamp = now\<rparr>)) \<or>
      (info = None \<and> (\<exists>e. err = Some e \<and> (upstream_failure res e \<or> context_failure e)))) \<and>
   GetAddressInfo q now res evs address \<noteq> Panics \<and>
   GetAddressInfo q now res (evs @ drain) address \<noteq> Blocks"
  using GetAddressInfo_cases[of q now res evs address] GetAddressInfo_returns[of q now res evs address]
  by auto

theorem GetAddressInfo_all_or_error_witness:
  "GetAddressInfo Pair 7 ok_results
      [Finish BalanceCall, Finish GasPriceCall, Select CaseBalanceCh, Finish BlockNumberCall,
       Select CaseBlockNumberCh, Select CaseGasPriceCh] ''0x00''
     = Returns (Some \<lparr>AddressInfo.Address = ''0x00'',
                      AddressInfo.GasPrice = \<lparr>GasPrice.Wei = Some 12000000000, GasPrice.Gwei = (12000000000, 10 ^ 9)\<rparr>,
                      AddressInfo.CurrentBlock = 18782549,
                      AddressInfo.Balance = \<lparr>Balance.Wei = Some 2500000000000000000,
                                  Balance.Ether = (2500000000000000000, 10 ^ 18)\<rparr>,
                      AddressInfo.Timestamp = 7\<rparr>, None) \<and>
   GetAddressInfo Pair 7 gas_fails [Finish BalanceCall, Select CaseBalanceCh, Finish GasPriceCall,
       Select CaseErrCh] ''0x00''
     = Returns (None, Some (Errorf ''failed to get gas price: '' (ErrorString ''connection refused''))) \<and>
   upstream_failure gas_fails (Errorf ''failed to get gas price: '' (ErrorString ''connection refused''))"
proof -
  have a: "GetAddressInfo Pair 7 ok_results
      [Finish BalanceCall, Finish GasPriceCall, Select CaseBalanceCh, Finish BlockNumberCall,
       Select CaseBlockNumberCh, Select CaseGasPriceCh] ''0x00''
     = Returns (Some \<lparr>AddressInfo.Address = ''0x00'',
                      AddressInfo.GasPrice = \<lparr>GasPrice.Wei = Some 12000000000, GasPrice.Gwei = (12000000000, 10 ^ 9)\<rparr>,
                      AddressInfo.CurrentBlock = 18782549,
                      AddressInfo.Balance = \<lparr>Balance.Wei = Some 2500000000000000000,
                                  Balance.Ether = (2500000000000000000, 10 ^ 18)\<rparr>,
                      AddressInfo.Timestamp = 7\<rparr>, None)"
    by (simp add: GetAddressInfo_def init_state_def ok_results_def)
  have b: "GetAddressInfo Pair 7 gas_fails [Finish BalanceCall, Select CaseBalanceCh, Finish GasPriceCall,
       Select CaseErrCh] ''0x00''
     = Returns (None, Some (Errorf ''failed to get gas price: '' (ErrorString ''connection refused'')))"
    by (simp add: GetAddressInfo_def init_state_def gas_fails_def)
  note c = GetAddressInfo_all_or_error [of Pair 7 gas_fails "[Finish BalanceCall, Select CaseBalanceCh, Finish GasPriceCall,
       Select CaseErrCh]" "''0x00''"]
  from c b have "upstream_failure gas_fails (Errorf ''failed to get gas price: '' (ErrorString ''connection refused''))
     \<or> context_failure (Errorf ''failed to get gas price: '' (ErrorString ''connection refused''))"
    by auto
  then have "upstream_failure gas_fails (Errorf ''failed to get gas price: '' (ErrorString ''connection refused''))"
    by (auto simp: context_failure_def)
  with a b show ?thesis by simp
qed


text \<open>
  The claim as worded lets every error name the upstream call that failed. When the
  context is done the loop returns the error of the context, although all three calls
  succeed.
\<close>

theorem GetAddressInfo_context_counterexample:
  "GetAddressInfo Pair 7 ok_results
      [Finish GasPriceCall, Select CaseGasPriceCh, Cancel (ErrorString ''context deadline exceeded''),
       Select CaseCtxDone] ''0x00''
     = Returns (None, Some (Errorf ''context cancelled: '' (ErrorString ''context deadline exceeded''))) \<and>
   \<not> upstream_failure ok_results
       (Errorf ''context cancelled: '' (ErrorString ''context deadline exceeded''))"
  by (simp add: GetAddressInfo_def init_state_def ok_results_def upstream_failure_def)

section \<open>Properties of the conversion to \<open>float64\<close>\<close>

subsection \<open>Lengths in bits\<close>

lemma BitLen_0 [simp]: "BitLen 0 = 0"
  by (simp add: BitLen.simps)

lemma BitLen_1 [simp]: "BitLen (Suc 0) = 1" "BitLen 1 = 1"
  by (simp_all add: BitLen.simps[of 1] BitLen.simps[of "Suc 0"])

lemma BitLen_Bit0 [simp]: "BitLen (numeral (Num.Bit0 k)) = Suc (BitLen (numeral k))"
proof -
  have "numeral (Num.Bit0 k) div (2::nat) = numeral k" by simp
  then show ?thesis by (subst BitLen.simps) simp
qed

lemma BitLen_Bit1 [simp]: "BitLen (numeral (Num.Bit1 k)) = Suc (BitLen (numeral k))"
proof -
  have "numeral (Num.Bit1 k) div (2::nat) = numeral k" by simp
  then show ?thesis by (subst BitLen.simps) simp
qed







subsection \<open>Rounding to a number of bits\<close>










subsection \<open>The two roundings of the conversion\<close>


lemma BitLen_divisors: "BitLen (10 ^ 9) = 30" "BitLen (10 ^ 18) = 60"
  by simp_all











section \<open>Properties of the error responses\<close>

lemma failure_text_nonempty:
  "upstream_failure res e \<or> context_failure e \<Longrightarrow> err_Error e \<noteq> []"
  by (auto simp: upstream_failure_def context_failure_def)

lemma GetAddressInfo_error_text:
  assumes "GetAddressInfo q now res evs address = Returns (info, Some err)"
  shows "err_Error err \<noteq> []"
  using GetAddressInfo_cases[of q now res evs address] assms failure_text_nonempty[of res err]
  by auto


text \<open>
  Claim C5, as amended. For every recovered panic the response is status 500 with a body
  of exactly the generic message and the status member, whatever the panic value and the
  stack, which go to the log with the request identifier. For every failure of the
  aggregation the handler answers with status 500 and the same generic message, and the
  body carries the text of the internal error as well, in its \<open>error\<close> member.
\<close>

theorem error_response_bodies:
  "Recovery requestID stack (Inl v) =
     ([\<lparr>level = ''error'', msg = ''Panic recovered'',
        log_fields = [(''request_id'', requestID), (''error'', v), (''stack'', stack)]\<rparr>],
      (500, [(''message'', JString ''Internal server error''), (''status'', JString ''error'')])) \<and>
   (IsValidAddress address \<longrightarrow>
    GetAddressInfo q now res evs (FormatAddress U address) = Returns (info, Some err) \<longrightarrow>
    Handler_GetAddressInfo U q RFC3339 now res evs address =
      Returns (500, [(''status'', JString ''error''), (''message'', JString ''Internal server error''),
                     (''error'', JString (err_Error err))]))"
proof (intro conjI impI)
  show "Recovery requestID stack (Inl v) =
     ([\<lparr>level = ''error'', msg = ''Panic recovered'',
        log_fields = [(''request_id'', requestID), (''error'', v), (''stack'', stack)]\<rparr>],
      (500, [(''message'', JString ''Internal server error''), (''status'', JString ''error'')]))"
    by (simp add: Recovery_def)
next
  assume v: "IsValidAddress address"
    and g: "GetAddressInfo q now res evs (FormatAddress U address) = Returns (info, Some err)"
  from GetAddressInfo_error_text[OF g] have "err_Error err \<noteq> []" .
  with v g show "Handler_GetAddressInfo U q RFC3339 now res evs address =
      Returns (500, [(''status'', JString ''error''), (''message'', JString ''Internal server error''),
                     (''error'', JString (err_Error err))])"
    by (simp add: Handler_GetAddressInfo_def InternalServerError_def NewErrorResponse_def JSON_def
        split: option.splits)
qed

lemma zero_address_valid: "IsValidAddress ''0x0000000000000000000000000000000000000000''"
  by (simp add: IsValidAddress_iff is_hex_digit_def)

lemma zero_address_format:
  "FormatAddress no_unicode ''0x0000000000000000000000000000000000000000''
     = ''0x0000000000000000000000000000000000000000''"
  by (simp add: FormatAddress_def TrimSpace_def ToLower_def asciiSpace_def RuneSelf_def byte_def
      HasPrefix_def is_upper_def no_unicode_def Let_def)

lemma node_down_aggregate:
  "GetAddressInfo Pair 7 node_down [Finish GasPriceCall, Select CaseErrCh]
      ''0x0000000000000000000000000000000000000000''
    = Returns (None, Some (Errorf ''failed to get gas price: ''
         (ErrorString ''dial tcp 10.0.0.5:8545: connect: connection refused'')))"
  by (simp add: GetAddressInfo_def init_state_def node_down_def)


text \<open>
  The claim as worded keeps the internal error text out of the body. For a node that
  refuses the connection, the text of the client's error is in the body.
\<close>

theorem upstream_error_text_counterexample:
  "Handler_GetAddressInfo no_unicode Pair (\<lambda>t. []) 7 node_down [Finish GasPriceCall, Select CaseErrCh]
      ''0x0000000000000000000000000000000000000000''
    = Returns (500, [(''status'', JString ''error''), (''message'', JString ''Internal server error''),
        (''error'', JString ''failed to get gas price: dial tcp 10.0.0.5:8545: connect: connection refused'')])"
  by (simp add: Handler_GetAddressInfo_def zero_address_valid zero_address_format node_down_aggregate
      InternalServerError_def NewErrorResponse_def JSON_def)


theorem error_response_bodies_witness:
  "IsValidAddress ''0x0000000000000000000000000000000000000000'' \<and>
   GetAddressInfo Pair 7 node_down [Finish GasPriceCall, Select CaseErrCh]
      (FormatAddress no_unicode ''0x0000000000000000000000000000000000000000'')
    = Returns (None, Some (Errorf ''failed to get gas price: ''
         (ErrorString ''dial tcp 10.0.0.5:8545: connect: connection refused''))) \<and>
   Handler_GetAddressInfo no_unicode Pair (\<lambda>t. []) 7 node_down [Finish GasPriceCall, Select CaseErrCh]
      ''0x0000000000000000000000000000000000000000''
    = Returns (500, [(''status'', JString ''error''), (''message'', JString ''Internal server error''),
        (''error'', JString ''failed to get gas price: dial tcp 10.0.0.5:8545: connect: connection refused'')]) \<and>
   snd (Recovery ''req-1'' ''goroutine 1 [running]'' (Inl ''index out of range''))
    = (500, [(''message'', JString ''Internal server error''), (''status'', JString ''error'')])"
proof -
  have g: "GetAddressInfo Pair 7 node_down [Finish GasPriceCall, Select CaseErrCh]
      (FormatAddress no_unicode ''0x0000000000000000000000000000000000000000'')
    = Returns (None, Some (Errorf ''failed to get gas price: ''
         (ErrorString ''dial tcp 10.0.0.5:8545: connect: connection refused'')))"
    by (simp only: zero_address_format node_down_aggregate)
  note c = error_response_bodies [of "''req-1''" "''goroutine 1 [running]''" "''index out of range''"
      "''0x0000000000000000000000000000000000000000''" Pair 7 node_down
      "[Finish GasPriceCall, Select CaseErrCh]" no_unicode None
      "Errorf ''failed to get gas price: ''
         (ErrorString ''dial tcp 10.0.0.5:8545: connect: connection refused'')" "\<lambda>t. []"]
  have t: "err_Error (Errorf ''failed to get gas price: ''
         (ErrorString ''dial tcp 10.0.0.5:8545: connect: connection refused''))
      = ''failed to get gas price: dial tcp 10.0.0.5:8545: connect: connection refused''"
    by simp
  note r = c [THEN conjunct1]
  note h = c [THEN conjunct2, rule_format, OF zero_address_valid g, unfolded t]
  show ?thesis
    by (intro conjI) (simp_all add: zero_address_valid g h r)
qed

section \<open>Properties of the timeout middleware\<close>

lemma timeout_step_inv:
  assumes "timeout_inv inner s"
  shows "timeout_inv inner (timeout_step s ev)"
proof (cases ev)
  case InnerStep
  with assms show ?thesis
    by (cases "todo s") (auto simp: timeout_inv_def written_by_def)
next
  case Deadline
  with assms show ?thesis by (auto simp: timeout_inv_def written_by_def)
next
  case SelectDone
  with assms show ?thesis by (auto simp: timeout_inv_def written_by_def)
next
  case SelectCtxDone
  with assms show ?thesis by (auto simp: timeout_inv_def written_by_def)
qed

lemma foldl_timeout_inv:
  "timeout_inv inner s \<Longrightarrow> timeout_inv inner (foldl timeout_step s evs)"
  by (induction evs arbitrary: s) (simp_all add: timeout_step_inv)

lemma Timeout_inv: "timeout_inv inner (Timeout inner evs)"
  unfolding Timeout_def by (rule foldl_timeout_inv) (simp add: timeout_inv_def written_by_def)

lemma Timeout_append: "Timeout inner (evs @ evs') = foldl timeout_step (Timeout inner evs) evs'"
  by (simp add: Timeout_def)

lemma late_success_aggregate:
  "GetAddressInfo Pair 7 ok_results
      [Finish GasPriceCall, Finish BlockNumberCall, Finish BalanceCall,
       Cancel (ErrorString ''context deadline exceeded''),
       Select CaseGasPriceCh, Select CaseBlockNumberCh, Select CaseBalanceCh]
      ''0x0000000000000000000000000000000000000000''
    = Returns (Some zero_info, None)"
  by (simp add: GetAddressInfo_def init_state_def ok_results_def zero_info_def)

text \<open>
  The writes of the middleware itself, for every request and every schedule: it writes
  the 408 response exactly when its \<open>select\<close> takes the timeout branch, and then exactly
  once; as long as it has not returned, the deadline passing and the \<open>select\<close> taking
  that branch make it write the 408 response and return.
\<close>

lemma Timeout_middleware_writes:
  "written_by TimeoutMiddleware (Timeout inner evs) =
     (if branch (Timeout inner evs) = Some TookCtxDone then [timeout_response] else []) \<and>
   (branch (Timeout inner evs) = None \<longrightarrow>
      branch (Timeout inner (evs @ [Deadline, SelectCtxDone])) = Some TookCtxDone)"
proof -
  let ?s = "Timeout inner evs"
  have inv: "timeout_inv inner ?s" by (rule Timeout_inv)
  have c: "branch ?s = None \<longrightarrow>
      branch (Timeout inner (evs @ [Deadline, SelectCtxDone])) = Some TookCtxDone"
    by (simp add: Timeout_append)
  from inv c show ?thesis by (simp add: timeout_inv_def)
qed

text \<open>
  The writes of the handler in flight. Whatever the middleware has done, each step of
  the goroutine writes the handler's next response on the context: once the goroutine
  has taken all its steps, every response of the handler is on the context, after
  whatever was written before, the 408 response included.
\<close>

lemma inner_steps_written:
  "written (foldl timeout_step s (replicate (length (todo s)) InnerStep)) =
     written s @ map (Pair InFlightHandler) (todo s)"
proof (induction "todo s" arbitrary: s)
  case Nil
  then show ?case by simp
next
  case (Cons r rs)
  let ?s' = "s\<lparr>written := written s @ [(InFlightHandler, r)], todo := rs\<rparr>"
  from Cons.hyps(2) have step: "timeout_step s InnerStep = ?s'"
    by (cases "todo s") simp_all
  have rs: "rs = todo ?s'" by simp
  from Cons.hyps(2) have len: "length (todo s) = Suc (length rs)"
    by (metis length_Cons)
  from Cons.hyps(1)[OF rs] Cons.hyps(2)[symmetric] show ?case
    by (simp add: len step)
qed

lemma abandoned_handler_writes:
  "written (Timeout inner ([Deadline, SelectCtxDone] @ replicate (length inner) InnerStep)) =
     (TimeoutMiddleware, timeout_response) # map (Pair InFlightHandler) inner"
proof -
  let ?s = "Timeout inner [Deadline, SelectCtxDone]"
  have s: "written ?s = [(TimeoutMiddleware, timeout_response)]" "todo ?s = inner"
    by (simp_all add: Timeout_def)
  have "Timeout inner ([Deadline, SelectCtxDone] @ replicate (length inner) InnerStep) =
      foldl timeout_step ?s (replicate (length inner) InnerStep)"
    by (rule Timeout_append)
  with inner_steps_written[of ?s] s show ?thesis
    by (simp only: append_Cons append_Nil list.map)
qed

text \<open>
  Claim C9 fails on the code. The middleware is documented as aborting the requests
  that take too long and answers with \<open>c.AbortWithStatusJSON\<close>, yet the handler in
  flight is not stopped and its writes are not guarded. Here the deadline passes while
  the three values are ready: the aggregation still succeeds, the middleware writes the
  408 response, and the handler then writes its 200 response to the same context.
\<close>

theorem Timeout_double_write:
  "Handler_GetAddressInfo no_unicode Pair (\<lambda>t. []) 7 ok_results
      [Finish GasPriceCall, Finish BlockNumberCall, Finish BalanceCall,
       Cancel (ErrorString ''context deadline exceeded''),
       Select CaseGasPriceCh, Select CaseBlockNumberCh, Select CaseBalanceCh]
      ''0x0000000000000000000000000000000000000000''
    = Returns (Success (FormatAddressInfo (\<lambda>t. []) zero_info)) \<and>
   fst (Success (FormatAddressInfo (\<lambda>t. []) zero_info)) = 200 \<and>
   written (Timeout [Success (FormatAddressInfo (\<lambda>t. []) zero_info)]
              [Deadline, SelectCtxDone, InnerStep, InnerStep])
    = [(TimeoutMiddleware, timeout_response),
       (InFlightHandler, Success (FormatAddressInfo (\<lambda>t. []) zero_info))]"
  by (simp add: Handler_GetAddressInfo_def zero_address_valid zero_address_format
      late_success_aggregate Timeout_def Success_def NewSuccessResponse_def JSON_def)

end
